theory Spec2Isabelle
  imports Complex_Main "HOL-Library.Char_ord" "HOL-Library.List_Lexorder"
begin

section \<open>Python strings\<close>

text \<open>
  A Python \<open>str\<close> is modelled as a \<open>string\<close>: the list of its code points, each below 256.
  The functions of this section are the \<open>str\<close> methods that \<open>publish.py\<close> calls.
\<close>

definition nl :: char where
  "nl = CHR 0x0A"

definition dq :: char where
  "dq = CHR 0x22"

definition sq :: char where
  "sq = CHR 0x27"

text \<open>\<open>str.isspace\<close> on one code point below 256: tab, line feed, vertical tab, form feed,
  carriage return, the four separators 0x1C to 0x1F, space, NEL and the no-break space.\<close>

definition isspace :: "char \<Rightarrow> bool" where
  "isspace c = (c \<in> set [CHR 0x09, CHR 0x0A, CHR 0x0B, CHR 0x0C, CHR 0x0D,
                           CHR 0x1C, CHR 0x1D, CHR 0x1E, CHR 0x1F, CHR 0x20,
                           CHR 0x85, CHR 0xA0])"

text \<open>\<open>s.startswith(p)\<close>.\<close>

definition startswith :: "string \<Rightarrow> string \<Rightarrow> bool" where
  "startswith s p = (take (length p) s = p)"

text \<open>\<open>s.strip()\<close> and \<open>s.strip(chars)\<close>: leading and trailing characters of the set are
  removed, as many as there are.\<close>

definition strip_chars :: "char list \<Rightarrow> string \<Rightarrow> string" where
  "strip_chars cs s =
     rev (dropWhile (\<lambda>c. c \<in> set cs) (rev (dropWhile (\<lambda>c. c \<in> set cs) s)))"

definition strip :: "string \<Rightarrow> string" where
  "strip s = rev (dropWhile isspace (rev (dropWhile isspace s)))"

text \<open>\<open>s.find(p)\<close>: the index of the first occurrence of \<open>p\<close>, \<open>None\<close> for Python's \<open>-1\<close>.\<close>

fun find_sub :: "string \<Rightarrow> string \<Rightarrow> nat option" where
  "find_sub p [] = (if p = [] then Some 0 else None)"
| "find_sub p (c # cs) =
     (if startswith (c # cs) p then Some 0 else map_option Suc (find_sub p cs))"

text \<open>\<open>s.split(sep, maxsplit)\<close> for a non-empty separator: the occurrences are taken from
  the left, without overlap, and at most \<open>maxsplit\<close> of them split.\<close>

fun split_max :: "string \<Rightarrow> nat \<Rightarrow> string \<Rightarrow> string list" where
  "split_max sep 0 s = [s]"
| "split_max sep (Suc n) s =
     (case find_sub sep s of
        None \<Rightarrow> [s]
      | Some i \<Rightarrow> take i s # split_max sep n (drop (i + length sep) s))"

text \<open>\<open>s.split(sep)\<close> with no limit: a string of length \<open>n\<close> holds at most \<open>n\<close> occurrences
  of a non-empty separator.\<close>

definition split_all :: "string \<Rightarrow> string \<Rightarrow> string list" where
  "split_all sep s = split_max sep (length s) s"

text \<open>\<open>s.split()\<close>: the maximal runs of characters that are not whitespace. The scanner
  carries the word it is reading.\<close>

fun words_from :: "string \<Rightarrow> string \<Rightarrow> string list" where
  "words_from w [] = (if w = [] then [] else [w])"
| "words_from w (c # cs) =
     (if isspace c then (if w = [] then words_from [] cs else w # words_from [] cs)
      else words_from (w @ [c]) cs)"

definition split_ws :: "string \<Rightarrow> string list" where
  "split_ws s = words_from [] s"

text \<open>\<open>sep.join(xs)\<close>.\<close>

fun join :: "string \<Rightarrow> string list \<Rightarrow> string" where
  "join sep [] = []"
| "join sep [x] = x"
| "join sep (x # y # ys) = x @ sep @ join sep (y # ys)"

text \<open>\<open>s.replace(old, new)\<close>: every occurrence of \<open>old\<close> from the left, without
  overlap. For an empty \<open>old\<close> Python puts \<open>new\<close> before every character and at the end;
  the program never calls it so.\<close>

function replace :: "string \<Rightarrow> string \<Rightarrow> string \<Rightarrow> string" where
  "replace old new [] = (if old = [] then new else [])"
| "replace old new (c # cs) =
     (if old = [] then new @ c # replace old new cs
      else if startswith (c # cs) old then new @ replace old new (drop (length old) (c # cs))
      else c # replace old new cs)"
  by pat_completeness auto
termination
  by (relation "measure (\<lambda>(old, new, s). length s)") auto

text \<open>The number of places of \<open>s\<close> where \<open>p\<close> occurs, overlapping occurrences included.\<close>

fun occurrences :: "string \<Rightarrow> string \<Rightarrow> nat" where
  "occurrences p [] = (if p = [] then 1 else 0)"
| "occurrences p (c # cs) = (if startswith (c # cs) p then 1 else 0) + occurrences p cs"

text \<open>\<open>s.count(p)\<close>: the number of occurrences of \<open>p\<close> taken from the left without
  overlap, as \<open>split\<close> and \<open>replace\<close> take them.\<close>

function count_sub :: "string \<Rightarrow> string \<Rightarrow> nat" where
  "count_sub p s =
     (if p = [] then Suc (length s)
      else case find_sub p s of
             None \<Rightarrow> 0
           | Some i \<Rightarrow> Suc (count_sub p (drop (i + length p) s)))"
  by pat_completeness auto
termination
proof (relation "measure (\<lambda>(p, s). length s)")
  fix p s :: string and i :: nat
  assume p: "p \<noteq> []" and f: "find_sub p s = Some i"
  have "s \<noteq> []"
    using p f by (cases s) simp_all
  then have "length (drop (i + length p) s) < length s"
    using p by simp
  then show "((p, drop (i + length p) s), (p, s)) \<in> measure (\<lambda>(p, s). length s)"
    by simp
qed simp

declare count_sub.simps [simp del]

section \<open>Front matter\<close>

text \<open>
  The loop of \<open>parse_frontmatter\<close> over the header lines. \<open>key, value = line.split(":", 1)\<close>
  unpacks two parts; a line that holds a colon always splits in two
  (lemma \<open>split_colon_two\<close>), so the last case is never taken.
\<close>

fun header_loop :: "string list \<Rightarrow> (string \<rightharpoonup> string) \<Rightarrow> (string \<rightharpoonup> string)" where
  "header_loop [] fm = fm"
| "header_loop (line # rest) fm =
     (if CHR '':'' \<in> set line then
        (case split_max '':'' 1 line of
           [key, val] \<Rightarrow>
             header_loop rest (fm(strip key \<mapsto> strip_chars [sq] (strip_chars [dq] (strip val))))
         | _ \<Rightarrow> header_loop rest fm)
      else header_loop rest fm)"

definition parse_frontmatter :: "string \<Rightarrow> (string \<rightharpoonup> string) \<times> string" where
  "parse_frontmatter content =
     (if \<not> startswith content ''---'' then (Map.empty, content)
      else
        let parts = split_max ''---'' 2 content in
        if length parts < 3 then (Map.empty, content)
        else (header_loop (split_all [nl] (strip (parts ! 1))) Map.empty, strip (parts ! 2)))"

section \<open>The inline formatter\<close>

definition bt :: char where
  "bt = CHR 0x60"

text \<open>\<open>html.escape(s)\<close> with its default \<open>quote=True\<close>: the five replacements of the
  standard library, the ampersand first.\<close>

definition html_escape :: "string \<Rightarrow> string" where
  "html_escape s =
     replace [sq] ''&#x27;''
       (replace [dq] ''&quot;''
         (replace ''>'' ''&gt;''
           (replace ''<'' ''&lt;''
             (replace ''&'' ''&amp;'' s))))"

text \<open>
  \<open>re.sub\<close> with a pattern \<open>d([^x]+)d\<close> and the replacement \<open>opn\1cls\<close>, where \<open>d\<close> is a
  literal made of the character \<open>x\<close>: the patterns of code spans (\<open>d\<close> one backtick), bold
  (\<open>**\<close>, \<open>__\<close>) and italic (\<open>*\<close>, \<open>_\<close>). At a position where the pattern matches, the
  group is the whole run of characters other than \<open>x\<close> after \<open>d\<close> (a shorter group is not
  followed by \<open>x\<close>), the match is replaced and the scan goes on behind it; at any other
  position the character is copied and the scan moves one character on.
\<close>

function sub_span :: "string \<Rightarrow> char \<Rightarrow> string \<Rightarrow> string \<Rightarrow> string \<Rightarrow> string" where
  "sub_span d x opn cls [] = []"
| "sub_span d x opn cls (c # cs) =
     (if startswith (c # cs) d
         \<and> takeWhile (\<lambda>y. y \<noteq> x) (drop (length d) (c # cs)) \<noteq> []
         \<and> startswith (dropWhile (\<lambda>y. y \<noteq> x) (drop (length d) (c # cs))) d
      then opn @ takeWhile (\<lambda>y. y \<noteq> x) (drop (length d) (c # cs)) @ cls
             @ sub_span d x opn cls
                 (drop (length d) (dropWhile (\<lambda>y. y \<noteq> x) (drop (length d) (c # cs))))
      else c # sub_span d x opn cls cs)"
  by pat_completeness auto
termination
proof (relation "measure (\<lambda>(d, x, opn, cls, s). length s)")
  fix d :: string and x :: char and opn cls :: string and c :: char and cs :: string
  let ?a = "drop (length d) (c # cs)"
  assume "startswith (c # cs) d \<and> takeWhile (\<lambda>y. y \<noteq> x) ?a \<noteq> []
            \<and> startswith (dropWhile (\<lambda>y. y \<noteq> x) ?a) d"
  then have "takeWhile (\<lambda>y. y \<noteq> x) ?a \<noteq> []" by simp
  then have "length (dropWhile (\<lambda>y. y \<noteq> x) ?a) < length ?a"
    by (metis length_append less_add_same_cancel2 length_greater_0_conv
        takeWhile_dropWhile_id)
  then have "length (drop (length d) (dropWhile (\<lambda>y. y \<noteq> x) ?a)) < length (c # cs)"
    by simp
  then show "((d, x, opn, cls, drop (length d) (dropWhile (\<lambda>y. y \<noteq> x) ?a)),
              (d, x, opn, cls, c # cs)) \<in> measure (\<lambda>(d, x, opn, cls, s). length s)"
    by simp
qed auto

text \<open>
  \<open>re.sub(r'\[([^\]]+)\]\(([^)]+)\)', r'<a href="\2">\1</a>', text)\<close>: after the opening
  bracket the first group is the whole run up to the next closing bracket, which an
  opening parenthesis follows; the second group is the whole run up to the next closing
  parenthesis, which has to be there (the rest after the run is not empty).
\<close>

function sub_link :: "string \<Rightarrow> string" where
  "sub_link [] = []"
| "sub_link (c # cs) =
     (if c = CHR ''[''
         \<and> takeWhile (\<lambda>y. y \<noteq> CHR '']'') cs \<noteq> []
         \<and> startswith (dropWhile (\<lambda>y. y \<noteq> CHR '']'') cs) ''](''
         \<and> takeWhile (\<lambda>y. y \<noteq> CHR '')'') (drop 2 (dropWhile (\<lambda>y. y \<noteq> CHR '']'') cs)) \<noteq> []
         \<and> dropWhile (\<lambda>y. y \<noteq> CHR '')'') (drop 2 (dropWhile (\<lambda>y. y \<noteq> CHR '']'') cs)) \<noteq> []
      then ''<a href='' @ [dq]
             @ takeWhile (\<lambda>y. y \<noteq> CHR '')'') (drop 2 (dropWhile (\<lambda>y. y \<noteq> CHR '']'') cs))
             @ [dq] @ ''>'' @ takeWhile (\<lambda>y. y \<noteq> CHR '']'') cs @ ''</a>''
             @ sub_link
                 (drop 1 (dropWhile (\<lambda>y. y \<noteq> CHR '')'')
                    (drop 2 (dropWhile (\<lambda>y. y \<noteq> CHR '']'') cs))))
      else c # sub_link cs)"
  by pat_completeness auto
termination
proof (relation "measure length")
  fix c :: char and cs :: string
  let ?r1 = "dropWhile (\<lambda>y. y \<noteq> CHR '']'') cs"
  let ?r2 = "dropWhile (\<lambda>y. y \<noteq> CHR '')'') (drop 2 ?r1)"
  have "length ?r2 \<le> length (drop 2 ?r1)"
    by (rule length_dropWhile_le)
  also have "\<dots> \<le> length ?r1"
    by simp
  also have "\<dots> \<le> length cs"
    by (rule length_dropWhile_le)
  finally have "length (drop 1 ?r2) \<le> length cs"
    by simp
  then show "(drop 1 (dropWhile (\<lambda>y. y \<noteq> CHR '')'')
                (drop 2 (dropWhile (\<lambda>y. y \<noteq> CHR '']'') cs))), c # cs) \<in> measure length"
    by simp
qed auto

text \<open>\<open>process_inline\<close>: the escape, then the substitutions in the order of the source.\<close>

definition process_inline :: "string \<Rightarrow> string" where
  "process_inline text0 =
     (let text1 = html_escape text0;
          text2 = sub_span [bt] bt ''<code>'' ''</code>'' text1;
          text3 = sub_span ''**'' (CHR ''*'') ''<strong>'' ''</strong>'' text2;
          text4 = sub_span ''__'' (CHR ''_'') ''<strong>'' ''</strong>'' text3;
          text5 = sub_span ''*'' (CHR ''*'') ''<em>'' ''</em>'' text4;
          text6 = sub_span ''_'' (CHR ''_'') ''<em>'' ''</em>'' text5;
          text7 = sub_link text6
      in replace ''--'' ''&mdash;'' text7)"

text \<open>
  The characters that the escape and the substitutions of \<open>process_inline\<close> look for, and
  the texts that hold none of them; they state the property of links below.
\<close>

definition specials :: "char list" where
  "specials = ''&<>'' @ [dq, sq, bt] @ ''*_[]()''"

definition plain :: "string \<Rightarrow> bool" where
  "plain s = list_all (\<lambda>c. c \<notin> set specials) s"

section \<open>The block converter\<close>

definition fence :: string where
  "fence = [bt, bt, bt]"

text \<open>\<open>s.rfind(p)\<close>: the index of the last occurrence of \<open>p\<close>, \<open>None\<close> for Python's \<open>-1\<close>.\<close>

definition rfind_sub :: "string \<Rightarrow> string \<Rightarrow> nat option" where
  "rfind_sub p s =
     (case filter (\<lambda>i. startswith (drop i s) p) (rev [0..<Suc (length s)]) of
        [] \<Rightarrow> None
      | i # _ \<Rightarrow> Some i)"

text \<open>
  \<open>re.match(r'!\[(.*)\]\((.*)\)', line)\<close> on a line (a line holds no line feed, so the dot
  matches every character of it). Both groups are greedy: the match ends at the last
  closing parenthesis of the line, and the first group ends at the last \<open>](\<close> before it.
  The result is the pair \<open>(alt, src)\<close> of \<open>match.groups()\<close>.
\<close>

definition image_match :: "string \<Rightarrow> (string \<times> string) option" where
  "image_match line =
     (if startswith line ''!['' then
        (case rfind_sub '')'' (drop 2 line) of
           None \<Rightarrow> None
         | Some k \<Rightarrow>
             (case rfind_sub '']('' (take k (drop 2 line)) of
                None \<Rightarrow> None
              | Some j \<Rightarrow>
                  Some (take j (drop 2 line), drop (j + 2) (take k (drop 2 line)))))
      else None)"

text \<open>The variables of \<open>markdown_to_html\<close> that its loop updates.\<close>

record md_state =
  html_lines :: "string list"
  in_list :: bool
  in_code :: bool
  code_block :: "string list"

definition init_state :: md_state where
  "init_state = \<lparr>html_lines = [], in_list = False, in_code = False, code_block = []\<rparr>"

text \<open>\<open>html_lines.append(h)\<close>.\<close>

definition emit :: "string \<Rightarrow> md_state \<Rightarrow> md_state" where
  "emit h st = st\<lparr>html_lines := html_lines st @ [h]\<rparr>"

definition is_bullet :: "string \<Rightarrow> bool" where
  "is_bullet line = (startswith (strip line) ''- '' \<or> startswith (strip line) ''* '')"

text \<open>The step "close list if needed".\<close>

definition close_list :: "string \<Rightarrow> md_state \<Rightarrow> md_state" where
  "close_list line st =
     (if in_list st \<and> \<not> startswith (strip line) ''- '' \<and> \<not> startswith (strip line) ''* ''
      then (emit ''</ul>'' st)\<lparr>in_list := False\<rparr>
      else st)"

text \<open>The list branch opens the list when none is open.\<close>

definition open_list :: "md_state \<Rightarrow> md_state" where
  "open_list st = (if \<not> in_list st then (emit ''<ul>'' st)\<lparr>in_list := True\<rparr> else st)"

text \<open>The test of the inner loop that collects the lines of a paragraph.\<close>

definition para_cont :: "string \<Rightarrow> bool" where
  "para_cont l =
     (strip l \<noteq> [] \<and>
      \<not> list_ex (startswith l)
          [''#'', ''-'', ''*'', ''>'', fence, ''!['', ''---'', ''***'', ''___''])"

definition pre_block :: "string list \<Rightarrow> string" where
  "pre_block code = ''<pre><code>'' @ html_escape (join [nl] code) @ ''</code></pre>''"

definition figure :: "string \<Rightarrow> string \<Rightarrow> string" where
  "figure alt src =
     ''<figure><img src='' @ [dq] @ src @ [dq] @ '' alt='' @ [dq] @ alt @ [dq]
       @ ''><figcaption>'' @ alt @ ''</figcaption></figure>''"

text \<open>
  One turn of the \<open>while\<close> loop of \<open>markdown_to_html\<close>, at the line \<open>lines[i]\<close> with the
  lines \<open>rest\<close> after it: the state after the turn and the lines from the next \<open>i\<close> on.
  Every branch goes on with the next line, but the paragraph branch, which first takes
  the lines of the paragraph. The image branch tests the pattern and then matches it
  again; the second match never fails where the first did not.
\<close>

definition md_step :: "md_state \<Rightarrow> string \<Rightarrow> string list \<Rightarrow> md_state \<times> string list" where
  "md_step st line rest =
     (if startswith line fence then
        (if in_code st then
           (st\<lparr>html_lines := html_lines st @ [pre_block (code_block st)],
               code_block := [], in_code := False\<rparr>, rest)
         else (st\<lparr>in_code := True\<rparr>, rest))
      else if in_code st then (st\<lparr>code_block := code_block st @ [line]\<rparr>, rest)
      else
        let st1 = close_list line st in
        if startswith line ''# '' then (st1, rest)
        else if startswith line ''## '' then
          (emit (''<h2>'' @ process_inline (drop 3 line) @ ''</h2>'') st1, rest)
        else if startswith line ''### '' then
          (emit (''<h3>'' @ process_inline (drop 4 line) @ ''</h3>'') st1, rest)
        else if strip line \<in> set [''---'', ''***'', ''___''] then (emit ''<hr>'' st1, rest)
        else if startswith (strip line) ''- '' \<or> startswith (strip line) ''* '' then
          (emit (''<li>'' @ process_inline (drop 2 (strip line)) @ ''</li>'') (open_list st1), rest)
        else if startswith line ''> '' then
          (emit (''<blockquote><p>'' @ process_inline (drop 2 line) @ ''</p></blockquote>'') st1,
           rest)
        else if image_match line \<noteq> None then
          (case image_match line of
             Some (alt, src) \<Rightarrow> (emit (figure alt src) st1, rest)
           | None \<Rightarrow> (st1, rest))
        else if strip line = [] then (emit [] st1, rest)
        else
          (emit (''<p>'' @ process_inline (join '' '' (line # takeWhile para_cont rest)) @ ''</p>'')
             st1,
           dropWhile para_cont rest))"

text \<open>The loop: turns until no line is left.\<close>

function md_loop :: "md_state \<Rightarrow> string list \<Rightarrow> md_state" where
  "md_loop st [] = st"
| "md_loop st (line # rest) = md_loop (fst (md_step st line rest)) (snd (md_step st line rest))"
  by pat_completeness auto
termination
proof (relation "measure (\<lambda>(st, ls). length ls)")
  fix st :: md_state and line :: string and rest :: "string list"
  have "snd (md_step st line rest) = rest \<or> snd (md_step st line rest) = dropWhile para_cont rest"
    by (simp add: md_step_def Let_def split: option.split prod.split)
  then have "length (snd (md_step st line rest)) \<le> length rest"
    by (auto simp: length_dropWhile_le)
  then show "((fst (md_step st line rest), snd (md_step st line rest)), (st, line # rest))
               \<in> measure (\<lambda>(st, ls). length ls)"
    by (simp add: case_prod_beta)
qed simp

text \<open>\<open>markdown_to_html\<close>: the lines, the loop, the list closed at the end, the join.\<close>

definition finish :: "md_state \<Rightarrow> string" where
  "finish st =
     join (nl # ''                '')
       (html_lines (if in_list st then emit ''</ul>'' st else st))"

definition markdown_to_html :: "string \<Rightarrow> string" where
  "markdown_to_html md = finish (md_loop init_state (split_all [nl] md))"

section \<open>Reading time\<close>

text \<open>
  Python's \<open>round\<close> of a float to an integer: to the nearest integer, a tie to the even
  one. The quotient \<open>words / 200\<close> is a float; it is modelled by the exact quotient (a
  quotient that is a tie is exact as a float, and Python's division is correctly rounded,
  so no other quotient becomes a tie, for every word count below \<open>2^53\<close>).
\<close>

definition py_round :: "real \<Rightarrow> int" where
  "py_round x =
     (if x - of_int \<lfloor>x\<rfloor> < 1 / 2 then \<lfloor>x\<rfloor>
      else if 1 / 2 < x - of_int \<lfloor>x\<rfloor> then \<lfloor>x\<rfloor> + 1
      else if even \<lfloor>x\<rfloor> then \<lfloor>x\<rfloor> else \<lfloor>x\<rfloor> + 1)"

definition estimate_reading_time :: "string \<Rightarrow> int" where
  "estimate_reading_time text0 = max 1 (py_round (real (length (split_ws text0)) / 200))"

section \<open>File names\<close>

definition endswith :: "string \<Rightarrow> string \<Rightarrow> bool" where
  "endswith s p = (length p \<le> length s \<and> drop (length s - length p) s = p)"

text \<open>The pattern \<open>\d\<close> on a code point below 256.\<close>

definition isdigit :: "char \<Rightarrow> bool" where
  "isdigit c = (c \<in> set ''0123456789'')"

text \<open>\<open>Path(name).stem\<close> for a file name without directory part: the name without its
  last suffix; a dot at the start or at the end of the name begins no suffix.\<close>

definition stem :: "string \<Rightarrow> string" where
  "stem name =
     (case rfind_sub ''.'' name of
        None \<Rightarrow> name
      | Some i \<Rightarrow> if 0 < i \<and> i < length name - 1 then take i name else name)"

text \<open>\<open>re.match(r'(\d{4}-\d{2}-\d{2})-', s)\<close> matches: four digits, two digits and two
  digits, a dash after each group. The group of the match is \<open>take 10 s\<close>.\<close>

definition date_prefix :: "string \<Rightarrow> bool" where
  "date_prefix s =
     (11 \<le> length s
      \<and> list_all isdigit (take 4 s) \<and> s ! 4 = CHR ''-''
      \<and> list_all isdigit (take 2 (drop 5 s)) \<and> s ! 7 = CHR ''-''
      \<and> list_all isdigit (take 2 (drop 8 s)) \<and> s ! 10 = CHR ''-'')"

text \<open>\<open>get_slug_from_filename\<close>: the pattern \<open>\d{4}-\d{2}-\d{2}-(.+)\<close> on the stem; the group
  is greedy and the dot matches no line feed, so the group is the run up to the first
  line feed, and it is not empty.\<close>

definition get_slug_from_filename :: "string \<Rightarrow> string" where
  "get_slug_from_filename filename =
     (let name = stem filename in
      if date_prefix name \<and> takeWhile (\<lambda>c. c \<noteq> nl) (drop 11 name) \<noteq> []
      then takeWhile (\<lambda>c. c \<noteq> nl) (drop 11 name)
      else name)"

section \<open>Post records\<close>

datatype source = Markdown | Html

text \<open>The dictionary of a post, as \<open>get_all_posts\<close> builds it; \<open>body\<close> is a key of the
  records from markdown only, and \<open>file_path\<close> is the key \<open>file\<close>, the path
  from the root of the site.\<close>

record post =
  title :: string
  date :: string
  description :: string
  slug :: string
  file_path :: string
  body :: "string option"
  source :: source

text \<open>\<open>re.search\<close>: the match at the leftmost position where the pattern matches; \<open>m\<close> is
  the match of the pattern at the start of a string.\<close>

fun re_search :: "(string \<Rightarrow> 'a option) \<Rightarrow> string \<Rightarrow> 'a option" where
  "re_search m [] = m []"
| "re_search m (c # cs) = (case m (c # cs) of Some g \<Rightarrow> Some g | None \<Rightarrow> re_search m cs)"

text \<open>\<open><title>([^<]+) / sotoalt</title>\<close> at the start of \<open>s\<close>: the run up to the next \<open><\<close>
  ends with the ten characters \<open> / sotoalt\<close>, the group before them is not empty, and the
  closing tag follows the run.\<close>

definition title_at :: "string \<Rightarrow> string option" where
  "title_at s =
     (let run = takeWhile (\<lambda>c. c \<noteq> CHR ''<'') (drop 7 s);
          rest = dropWhile (\<lambda>c. c \<noteq> CHR ''<'') (drop 7 s)
      in if startswith s ''<title>'' \<and> 10 < length run
            \<and> drop (length run - 10) run = '' / sotoalt'' \<and> startswith rest ''</title>''
         then Some (take (length run - 10) run) else None)"

definition desc_open :: string where
  "desc_open = ''<meta name='' @ [dq] @ ''description'' @ [dq] @ '' content='' @ [dq]"

text \<open>\<open><meta name="description" content="([^"]*)"\<close> at the start of \<open>s\<close>: the group is the
  run up to the next double quote, which has to be there.\<close>

definition desc_at :: "string \<Rightarrow> string option" where
  "desc_at s =
     (if startswith s desc_open
         \<and> dropWhile (\<lambda>c. c \<noteq> dq) (drop (length desc_open) s) \<noteq> []
      then Some (takeWhile (\<lambda>c. c \<noteq> dq) (drop (length desc_open) s)) else None)"

definition meta_open :: string where
  "meta_open = ''<p class='' @ [dq] @ ''meta'' @ [dq] @ ''>''"

text \<open>\<open><p class="meta">(\d{4})\.(\d{2})\<close> at the start of \<open>s\<close>: the year and the month.\<close>

definition meta_date_at :: "string \<Rightarrow> (string \<times> string) option" where
  "meta_date_at s =
     (let r = drop (length meta_open) s in
      if startswith s meta_open \<and> 7 \<le> length r
         \<and> list_all isdigit (take 4 r) \<and> r ! 4 = CHR ''.'' \<and> list_all isdigit (take 2 (drop 5 r))
      then Some (take 4 r, take 2 (drop 5 r)) else None)"

text \<open>\<open>extract_metadata_from_html\<close>, on the name of the file and its text.\<close>

definition extract_metadata_from_html :: "string \<Rightarrow> string \<Rightarrow> post" where
  "extract_metadata_from_html name content =
     \<lparr>title = (case re_search title_at content of
                 Some t \<Rightarrow> t
               | None \<Rightarrow> replace ''-'' '' '' (stem name)),
      date = (case re_search meta_date_at content of
                Some (year, month) \<Rightarrow> year @ ''-'' @ month @ ''-01''
              | None \<Rightarrow> ''1970-01-01''),
      description = (case re_search desc_at content of Some d \<Rightarrow> d | None \<Rightarrow> []),
      slug = stem name,
      file_path = ''thoughts/'' @ name,
      body = None,
      source = Html\<rparr>"

text \<open>\<open>frontmatter.get(key, default)\<close>.\<close>

definition get_or :: "(string \<rightharpoonup> string) \<Rightarrow> string \<Rightarrow> string \<Rightarrow> string" where
  "get_or fm key dflt = (case fm key of Some v \<Rightarrow> v | None \<Rightarrow> dflt)"

text \<open>The record that the first loop of \<open>get_all_posts\<close> appends for a markdown file, on
  the name of the file and its text.\<close>

definition md_record :: "string \<Rightarrow> string \<Rightarrow> post" where
  "md_record name content =
     (let (frontmatter, body0) = parse_frontmatter content;
          slug0 = get_slug_from_filename name;
          date0 = get_or frontmatter ''date'' [];
          date1 = (if date0 = [] then
                     (if date_prefix name then take 10 name else ''1970-01-01'')
                   else date0)
      in \<lparr>title = get_or frontmatter ''title'' (replace ''-'' '' '' slug0),
          date = date1,
          description = get_or frontmatter ''description'' [],
          slug = slug0,
          file_path = ''posts/'' @ name,
          body = Some body0,
          source = Markdown\<rparr>)"

text \<open>
  A directory is the list of its files, each with its name and its text, in the order in
  which \<open>glob\<close> yields them; \<open>None\<close> is a directory that does not exist. \<open>glob("*.md")\<close>
  keeps the names that end with the suffix. The two loops carry \<open>posts\<close> and
  \<open>seen_slugs\<close>.
\<close>

type_synonym directory = "(string \<times> string) list option"

definition glob :: "string \<Rightarrow> directory \<Rightarrow> (string \<times> string) list" where
  "glob suffix dir =
     (case dir of None \<Rightarrow> [] | Some fs \<Rightarrow> filter (\<lambda>(name, content). endswith name suffix) fs)"

fun md_phase :: "(string \<times> string) list \<Rightarrow> post list \<times> string set \<Rightarrow> post list \<times> string set" where
  "md_phase [] acc = acc"
| "md_phase ((name, content) # fs) (posts, seen_slugs) =
     md_phase fs (posts @ [md_record name content],
                  insert (get_slug_from_filename name) seen_slugs)"

fun html_phase :: "(string \<times> string) list \<Rightarrow> post list \<times> string set \<Rightarrow> post list \<times> string set" where
  "html_phase [] acc = acc"
| "html_phase ((name, content) # fs) (posts, seen_slugs) =
     (if stem name \<notin> seen_slugs then
        html_phase fs (posts @ [extract_metadata_from_html name content],
                       insert (stem name) seen_slugs)
      else html_phase fs (posts, seen_slugs))"

text \<open>The list \<open>posts\<close> before it is sorted.\<close>

definition scan_posts :: "directory \<Rightarrow> directory \<Rightarrow> post list" where
  "scan_posts posts_dir thoughts_dir =
     fst (html_phase (glob ''.html'' thoughts_dir) (md_phase (glob ''.md'' posts_dir) ([], {})))"

text \<open>\<open>xs.sort(key=f, reverse=True)\<close>: Python reverses the list, sorts it with its stable
  sort and reverses it again, so that equal keys keep their order.\<close>

definition sort_reverse :: "('a \<Rightarrow> 'k::linorder) \<Rightarrow> 'a list \<Rightarrow> 'a list" where
  "sort_reverse f xs = rev (sort_key f (rev xs))"

definition get_all_posts :: "directory \<Rightarrow> directory \<Rightarrow> post list" where
  "get_all_posts posts_dir thoughts_dir = sort_reverse date (scan_posts posts_dir thoughts_dir)"

section \<open>Publishing one post\<close>

text \<open>
  \<open>publish_post\<close> returns a dictionary of the title, the date, the description and the
  slug, and the path of the page it wrote unless it ran for Substack. The model takes
  what the function reads from outside: \<open>today\<close>, the text of
  \<open>datetime.now().strftime("%Y-%m-%d")\<close>, and whether the template exists. Without the
  template the function ends the process (\<open>sys.exit(1)\<close>). What it prints and the text
  of the page it writes are not part of the model.
\<close>

datatype exit_error = TemplateNotFound

record post_info =
  info_title :: string
  info_date :: string
  info_description :: string
  info_slug :: string
  info_file :: "string option"

definition publish_post ::
  "string \<Rightarrow> bool \<Rightarrow> string \<Rightarrow> string \<Rightarrow> bool \<Rightarrow> exit_error + post_info" where
  "publish_post today template_exists name content substack =
     (let (frontmatter, body0) = parse_frontmatter content;
          info = \<lparr>info_title = get_or frontmatter ''title''
                                 (replace ''-'' '' '' (get_slug_from_filename name)),
                  info_date = get_or frontmatter ''date'' today,
                  info_description = get_or frontmatter ''description'' [],
                  info_slug = get_slug_from_filename name,
                  info_file = None\<rparr>
      in if substack then Inr info
         else if \<not> template_exists then Inl TemplateNotFound
         else Inr (info\<lparr>info_file := Some (''thoughts/'' @ get_slug_from_filename name @ ''.html'')\<rparr>))"

section \<open>Properties of the front-matter parser\<close>

lemma find_sub_occurrences:
  "p \<noteq> [] \<Longrightarrow> find_sub p s = Some i \<Longrightarrow> occurrences p s = Suc (occurrences p (drop (Suc i) s))"
proof (induction s arbitrary: i)
  case Nil
  then show ?case by simp
next
  case (Cons c cs)
  show ?case
  proof (cases "startswith (c # cs) p")
    case True
    with Cons.prems show ?thesis by simp
  next
    case False
    with Cons.prems obtain j where j: "find_sub p cs = Some j" "i = Suc j"
      by auto
    with Cons.IH [OF Cons.prems(1) j(1)] False show ?thesis by simp
  qed
qed

lemma occurrences_drop_le: "occurrences p (drop k s) \<le> occurrences p s"
proof (induction s arbitrary: k)
  case Nil
  then show ?case by simp
next
  case (Cons c cs)
  show ?case
  proof (cases k)
    case 0
    then show ?thesis by simp
  next
    case (Suc m)
    have "occurrences p (drop m cs) \<le> occurrences p cs" by (rule Cons.IH)
    with Suc show ?thesis by simp
  qed
qed

text \<open>With fewer than two occurrences of the separator, \<open>split(sep, 2)\<close> gives fewer than
  three parts.\<close>

lemma split_max_few:
  assumes "p \<noteq> []" and "occurrences p s < 2"
  shows "length (split_max p 2 s) < 3"
proof (cases "find_sub p s")
  case None
  then show ?thesis by (simp add: numeral_2_eq_2)
next
  case (Some i)
  from find_sub_occurrences [OF assms(1) Some] assms(2)
  have zero: "occurrences p (drop (Suc i) s) = 0" by simp
  have "drop (i + length p) s = drop (length p - 1) (drop (Suc i) s)"
    using assms(1) by (cases p) (simp_all add: add.commute)
  then have "occurrences p (drop (i + length p) s) \<le> occurrences p (drop (Suc i) s)"
    by (simp only: occurrences_drop_le)
  with zero have z: "occurrences p (drop (i + length p) s) = 0" by simp
  have "find_sub p (drop (i + length p) s) = None"
  proof (cases "find_sub p (drop (i + length p) s)")
    case None
    then show ?thesis .
  next
    case (Some j)
    from find_sub_occurrences [OF assms(1) Some] z show ?thesis by simp
  qed
  with Some show ?thesis by (simp add: numeral_2_eq_2)
qed

lemma split_max_count:
  assumes "p \<noteq> []" and "count_sub p s < 2"
  shows "length (split_max p 2 s) < 3"
proof (cases "find_sub p s")
  case None
  then show ?thesis by (simp add: numeral_2_eq_2)
next
  case (Some i)
  let ?r = "drop (i + length p) s"
  from assms Some have "count_sub p ?r = 0"
    by (subst (asm) count_sub.simps) simp
  then have "find_sub p ?r = None"
    using assms(1) by (subst (asm) count_sub.simps) (simp split: option.splits)
  with Some show ?thesis by (simp add: numeral_2_eq_2)
qed

text \<open>
  Claim C5. A text that does not start with the marker \<open>---\<close>, and a text that holds
  fewer than two occurrences of it, whether they are counted with overlaps or from the
  left without overlap as \<open>split\<close> takes them, is returned as it is, with an empty metadata
  mapping. The function has no other result: it raises nothing.
\<close>

theorem parse_frontmatter_without_marker:
  "\<not> startswith content ''---'' \<or> occurrences ''---'' content < 2
     \<or> count_sub ''---'' content < 2
     \<Longrightarrow> parse_frontmatter content = (Map.empty, content)"
proof (cases "startswith content ''---''")
  case False
  then show ?thesis by (simp add: parse_frontmatter_def)
next
  case True
  assume "\<not> startswith content ''---'' \<or> occurrences ''---'' content < 2
     \<or> count_sub ''---'' content < 2"
  with True have "occurrences ''---'' content < 2 \<or> count_sub ''---'' content < 2" by simp
  then have "length (split_max ''---'' 2 content) < 3"
    using split_max_few [of "''---''" content] split_max_count [of "''---''" content]
    by auto
  then show ?thesis by (simp add: parse_frontmatter_def Let_def)
qed

theorem parse_frontmatter_without_marker_witness:
  "parse_frontmatter ''--- title'' = (Map.empty, ''--- title'')
   \<and> parse_frontmatter ''title --- a --- b'' = (Map.empty, ''title --- a --- b'')
   \<and> parse_frontmatter ''----'' = (Map.empty, ''----'')"
proof -
  have a: "occurrences ''---'' ''--- title'' < 2" by code_simp
  have b: "\<not> startswith ''title --- a --- b'' ''---''" by code_simp
  have c: "count_sub ''---'' ''----'' < 2" by code_simp
  from a b c show ?thesis
    using parse_frontmatter_without_marker [of "''--- title''"]
      parse_frontmatter_without_marker [of "''title --- a --- b''"]
      parse_frontmatter_without_marker [of "''----''"]
    by blast
qed

section \<open>Properties of the reading time\<close>

text \<open>No integer is nearer to \<open>x\<close> than \<open>py_round x\<close>.\<close>

lemma py_round_nearest: "\<bar>of_int (py_round x) - x\<bar> \<le> \<bar>of_int k - x\<bar>"
proof -
  define f where "f = \<lfloor>x\<rfloor>"
  have lo: "of_int f \<le> x" and hi: "x < of_int f + 1"
    unfolding f_def by linarith+
  have r: "py_round x = f \<and> x - of_int f \<le> 1 / 2 \<or> py_round x = f + 1 \<and> 1 / 2 \<le> x - of_int f"
    unfolding py_round_def f_def by auto
  consider "k \<le> f" | "f + 1 \<le> k" by linarith
  then show ?thesis
  proof cases
    case 1
    then have "(of_int k :: real) \<le> of_int f" by simp
    with lo hi r show ?thesis by auto
  next
    case 2
    then have "(of_int f :: real) + 1 \<le> of_int k"
      by (metis of_int_1 of_int_add of_int_le_iff)
    with lo hi r show ?thesis by auto
  qed
qed

lemma words_from_run: "words_from [] (concat (replicate n ''w '')) = replicate n ''w''"
  by (induction n) (simp_all add: isspace_def)

lemma split_ws_run: "length (split_ws (concat (replicate n ''w ''))) = n"
  by (simp add: split_ws_def words_from_run)

text \<open>
  Claim C9. The reading time is the number of words of the text (split at whitespace)
  divided by 200 and rounded to a nearest integer (no integer is nearer to the quotient;
  Python resolves a tie to the even neighbour), and at least 1. A text of 400 words gives
  2 and a text of 50 words gives 1.
\<close>

theorem estimate_reading_time_rounds:
  "(\<exists>r. estimate_reading_time t = max 1 r
        \<and> (\<forall>k. \<bar>real_of_int r - real (length (split_ws t)) / 200\<bar>
                  \<le> \<bar>real_of_int k - real (length (split_ws t)) / 200\<bar>))
   \<and> (length (split_ws t) = 400 \<longrightarrow> estimate_reading_time t = 2)
   \<and> (length (split_ws t) = 50 \<longrightarrow> estimate_reading_time t = 1)"
proof (intro conjI impI)
  show "\<exists>r. estimate_reading_time t = max 1 r
        \<and> (\<forall>k. \<bar>real_of_int r - real (length (split_ws t)) / 200\<bar>
                  \<le> \<bar>real_of_int k - real (length (split_ws t)) / 200\<bar>)"
    unfolding estimate_reading_time_def using py_round_nearest by blast
next
  assume "length (split_ws t) = 400"
  then show "estimate_reading_time t = 2"
    by (simp add: estimate_reading_time_def py_round_def)
next
  assume "length (split_ws t) = 50"
  then show "estimate_reading_time t = 1"
    by (simp add: estimate_reading_time_def py_round_def)
qed

theorem estimate_reading_time_rounds_witness:
  "estimate_reading_time (concat (replicate 400 ''w '')) = 2
   \<and> estimate_reading_time (concat (replicate 50 ''w '')) = 1"
  using estimate_reading_time_rounds [of "concat (replicate 400 ''w '')"]
    estimate_reading_time_rounds [of "concat (replicate 50 ''w '')"]
  by (simp only: split_ws_run simp_thms)

section \<open>Properties of the post list\<close>

text \<open>The sort of \<open>get_all_posts\<close>: the same records, in descending order of the key,
  records of equal key in the order they had.\<close>

lemma sort_reverse_set: "set (sort_reverse f xs) = set xs"
  by (simp add: sort_reverse_def)

lemma sort_reverse_filter:
  "length (filter P (sort_reverse f xs)) = length (filter P xs)"
proof -
  have "length (filter P (sort_reverse f xs)) = length (filter P (sort_key f (rev xs)))"
    by (simp add: sort_reverse_def flip: rev_filter)
  also have "\<dots> = length (sort_key f (filter P (rev xs)))"
    by (simp only: filter_sort)
  also have "\<dots> = length (filter P xs)"
    by (simp flip: rev_filter)
  finally show ?thesis .
qed

lemma sort_reverse_distinct_map:
  "distinct (map g (sort_reverse f xs)) = distinct (map g xs)"
  by (simp add: sort_reverse_def distinct_map)

lemma sort_reverse_sorted: "sorted_wrt (\<lambda>p q. f q \<le> f p) (sort_reverse f xs)"
proof -
  have "sorted (map f (sort_key f (rev xs)))"
    by (rule sorted_sort_key)
  then have "sorted_wrt (\<lambda>p q. f p \<le> f q) (sort_key f (rev xs))"
    by (simp only: sorted_map)
  then show ?thesis
    by (simp add: sort_reverse_def sorted_wrt_rev)
qed

lemma sort_reverse_stable:
  "filter (\<lambda>p. f p = k) (sort_reverse f xs) = filter (\<lambda>p. f p = k) xs"
proof -
  have "filter (\<lambda>p. f p = k) (sort_reverse f xs) = rev (filter (\<lambda>p. f p = k) (sort_key f (rev xs)))"
    by (simp add: sort_reverse_def rev_filter)
  also have "\<dots> = rev (filter (\<lambda>p. f p = k) (rev xs))"
    by (simp only: sort_key_stable)
  also have "\<dots> = filter (\<lambda>p. f p = k) xs"
    by (simp add: rev_filter)
  finally show ?thesis .
qed

text \<open>The two loops of the scan.\<close>

lemma md_record_slug [simp]: "slug (md_record name content) = get_slug_from_filename name"
  by (simp add: md_record_def Let_def split: prod.split)

lemma md_record_source [simp]: "source (md_record name content) = Markdown"
  by (simp add: md_record_def Let_def split: prod.split)

lemma html_record_slug [simp]: "slug (extract_metadata_from_html name content) = stem name"
  by (simp add: extract_metadata_from_html_def)

lemma html_record_source [simp]: "source (extract_metadata_from_html name content) = Html"
  by (simp add: extract_metadata_from_html_def)

lemma md_phase_eq:
  "md_phase fs (posts, seen) =
     (posts @ map (\<lambda>(name, content). md_record name content) fs,
      seen \<union> (\<lambda>(name, content). get_slug_from_filename name) ` set fs)"
  by (induction fs arbitrary: posts seen) auto

lemma html_phase_shape:
  "\<exists>hs. fst (html_phase fs (posts, seen)) = posts @ hs
        \<and> list_all (\<lambda>p. source p = Html) hs
        \<and> distinct (map slug hs) \<and> slug ` set hs \<inter> seen = {}"
proof (induction fs arbitrary: posts seen)
  case Nil
  then show ?case by simp
next
  case (Cons f fs)
  obtain name content where f: "f = (name, content)" by (cases f)
  show ?case
  proof (cases "stem name \<in> seen")
    case True
    with f Cons.IH [of posts seen] show ?thesis by simp
  next
    case False
    let ?e = "extract_metadata_from_html name content"
    from Cons.IH [of "posts @ [?e]" "insert (stem name) seen"]
    obtain hs where hs: "fst (html_phase fs (posts @ [?e], insert (stem name) seen)) = (posts @ [?e]) @ hs"
      "list_all (\<lambda>p. source p = Html) hs" "distinct (map slug hs)"
      "slug ` set hs \<inter> insert (stem name) seen = {}"
      by blast
    have "fst (html_phase (f # fs) (posts, seen)) = posts @ (?e # hs)"
      using f False hs(1) by simp
    moreover have "list_all (\<lambda>p. source p = Html) (?e # hs)"
      using hs(2) by simp
    moreover have "distinct (map slug (?e # hs))"
      using hs(3,4) by auto
    moreover have "slug ` set (?e # hs) \<inter> seen = {}"
      using hs(4) False by auto
    ultimately show ?thesis by blast
  qed
qed

text \<open>The list before the sort: the records of the markdown files, then records from
  HTML whose slugs are new.\<close>

lemma scan_posts_shape:
  "\<exists>hs. scan_posts pd td = map (\<lambda>(name, content). md_record name content) (glob ''.md'' pd) @ hs
        \<and> list_all (\<lambda>p. source p = Html) hs
        \<and> distinct (map slug hs)
        \<and> slug ` set hs \<inter> (\<lambda>(name, content). get_slug_from_filename name) ` set (glob ''.md'' pd) = {}"
proof -
  let ?ms = "map (\<lambda>(name, content). md_record name content) (glob ''.md'' pd)"
  let ?seen = "(\<lambda>(name, content). get_slug_from_filename name) ` set (glob ''.md'' pd)"
  have "scan_posts pd td = fst (html_phase (glob ''.html'' td) (?ms, ?seen))"
    by (simp add: scan_posts_def md_phase_eq)
  with html_phase_shape [of "glob ''.html'' td" ?ms ?seen] show ?thesis
    by auto
qed



lemma distinct_map_count:
  "distinct (map g xs) \<Longrightarrow> x \<in> set xs \<Longrightarrow> length (filter (\<lambda>q. g q = g x) xs) = 1"
proof (induction xs)
  case Nil
  then show ?case by simp
next
  case (Cons y ys)
  show ?case
  proof (cases "g y = g x")
    case True
    with Cons.prems(1) have "g x \<notin> g ` set ys" by simp
    then have "filter (\<lambda>q. g q = g x) ys = []"
      unfolding filter_empty_conv by (metis imageI)
    with True show ?thesis by simp
  next
    case False
    with Cons show ?thesis by auto
  qed
qed

text \<open>
  Claim C3. The list that \<open>get_all_posts\<close> returns is in descending order of the dates,
  compared as strings. For every date, the records of that date stand in the order of
  the list before the sort, which is the records of the markdown files followed by the
  records from HTML: the sort is stable, and markdown records come before HTML records of
  the same date. Files dated 2024-03-01, 2024-01-15 and 2024-03-01, scanned in this order,
  come out as the first, the third and the second.
\<close>

theorem get_all_posts_sorted_stable:
  "sorted_wrt (\<lambda>p q. date q \<le> date p) (get_all_posts pd td)
   \<and> (\<forall>d. filter (\<lambda>p. date p = d) (get_all_posts pd td)
           = filter (\<lambda>p. date p = d) (scan_posts pd td))
   \<and> (\<exists>hs. scan_posts pd td
              = map (\<lambda>(name, content). md_record name content) (glob ''.md'' pd) @ hs
            \<and> list_all (\<lambda>p. source p = Html) hs)
   \<and> map file_path
        (get_all_posts
           (Some [(''2024-03-01-a.md'', ''A''), (''2024-01-15-b.md'', ''B''),
                  (''2024-03-01-c.md'', ''C'')]) None)
      = [''posts/2024-03-01-a.md'', ''posts/2024-03-01-c.md'', ''posts/2024-01-15-b.md'']"
proof (intro conjI allI)
  show "sorted_wrt (\<lambda>p q. date q \<le> date p) (get_all_posts pd td)"
    unfolding get_all_posts_def by (rule sort_reverse_sorted)
next
  fix d
  show "filter (\<lambda>p. date p = d) (get_all_posts pd td) = filter (\<lambda>p. date p = d) (scan_posts pd td)"
    unfolding get_all_posts_def by (rule sort_reverse_stable)
next
  from scan_posts_shape [of pd td]
  show "\<exists>hs. scan_posts pd td
              = map (\<lambda>(name, content). md_record name content) (glob ''.md'' pd) @ hs
            \<and> list_all (\<lambda>p. source p = Html) hs"
    by blast
next
  show "map file_path
        (get_all_posts
           (Some [(''2024-03-01-a.md'', ''A''), (''2024-01-15-b.md'', ''B''),
                  (''2024-03-01-c.md'', ''C'')]) None)
      = [''posts/2024-03-01-a.md'', ''posts/2024-03-01-c.md'', ''posts/2024-01-15-b.md'']"
    by code_simp
qed

text \<open>The records of a slug among the records of markdown files.\<close>

lemma count_md_records:
  "length (filter (\<lambda>p. slug p = s \<and> source p = Markdown)
             (map (\<lambda>(name, content). md_record name content) fs))
     = length (filter (\<lambda>(name, content). get_slug_from_filename name = s) fs)"
  by (induction fs) auto

text \<open>
  Claim C2, as stated, fails: the first loop appends a record for every markdown file and
  never looks at \<open>seen_slugs\<close>. The files \<open>2024-01-01-x.md\<close> and \<open>x.md\<close> both have the slug
  \<open>x\<close>, and with \<open>thoughts/x.html\<close> beside them the list holds two records of slug \<open>x\<close>,
  both from markdown.
\<close>

theorem get_all_posts_duplicate_slug:
  "map slug (get_all_posts (Some [(''2024-01-01-x.md'', ''A''), (''x.md'', ''B'')])
                           (Some [(''x.html'', ''C'')])) = [''x'', ''x'']
   \<and> map source (get_all_posts (Some [(''2024-01-01-x.md'', ''A''), (''x.md'', ''B'')])
                               (Some [(''x.html'', ''C'')])) = [Markdown, Markdown]"
  by code_simp

text \<open>
  Claim C2, amended. The slug of a record from HTML occurs once in the list: no other
  record, from markdown or from HTML, has it. The list holds as many records from
  markdown of a slug as there are markdown files of that slug. So a slug that a markdown
  file and an HTML file share has records from markdown only, one when one markdown file
  has the slug, and the slugs of the list are all distinct exactly when the slugs of the
  markdown files are.
\<close>

theorem get_all_posts_slugs:
  "(\<forall>p \<in> set (get_all_posts pd td).
        source p = Html \<longrightarrow> length (filter (\<lambda>q. slug q = slug p) (get_all_posts pd td)) = 1)
   \<and> (distinct (map slug (get_all_posts pd td))
        \<longleftrightarrow> distinct (map (\<lambda>(name, content). get_slug_from_filename name) (glob ''.md'' pd)))
   \<and> (\<forall>s. length (filter (\<lambda>p. slug p = s \<and> source p = Markdown) (get_all_posts pd td))
            = length (filter (\<lambda>(name, content). get_slug_from_filename name = s)
                        (glob ''.md'' pd)))"
proof -
  let ?ms = "map (\<lambda>(name, content). md_record name content) (glob ''.md'' pd)"
  let ?seen = "(\<lambda>(name, content). get_slug_from_filename name) ` set (glob ''.md'' pd)"
  from scan_posts_shape [of pd td] obtain hs where
    scan: "scan_posts pd td = ?ms @ hs" and html: "list_all (\<lambda>p. source p = Html) hs"
    and dist: "distinct (map slug hs)" and new: "slug ` set hs \<inter> ?seen = {}"
    by blast
  have md: "\<And>p. p \<in> set ?ms \<Longrightarrow> source p = Markdown \<and> slug p \<in> ?seen"
    by auto
  have slugs_ms: "map slug ?ms = map (\<lambda>(name, content). get_slug_from_filename name) (glob ''.md'' pd)"
    by (simp add: case_prod_beta comp_def)
  have one: "length (filter (\<lambda>q. slug q = slug p) (get_all_posts pd td)) = 1"
    if p: "p \<in> set (get_all_posts pd td)" and h: "source p = Html" for p
  proof -
    from p have "p \<in> set ?ms \<union> set hs"
      by (simp add: get_all_posts_def sort_reverse_set scan)
    with h md have in_hs: "p \<in> set hs" by auto
    with new have "slug p \<notin> ?seen" by blast
    with md have "filter (\<lambda>q. slug q = slug p) ?ms = []"
      unfolding filter_empty_conv by metis
    moreover from dist in_hs have "length (filter (\<lambda>q. slug q = slug p) hs) = 1"
      by (rule distinct_map_count)
    ultimately show ?thesis
      by (simp add: get_all_posts_def sort_reverse_filter scan)
  qed
  have "set (map slug ?ms) \<inter> set (map slug hs) = {}"
    using new by (auto simp: case_prod_beta)
  then have "distinct (map slug (?ms @ hs)) \<longleftrightarrow> distinct (map slug ?ms)"
    using dist by simp
  then have all: "distinct (map slug (get_all_posts pd td))
        \<longleftrightarrow> distinct (map (\<lambda>(name, content). get_slug_from_filename name) (glob ''.md'' pd))"
    by (simp only: get_all_posts_def sort_reverse_distinct_map scan slugs_ms)
  have count: "length (filter (\<lambda>p. slug p = s \<and> source p = Markdown) (get_all_posts pd td))
            = length (filter (\<lambda>(name, content). get_slug_from_filename name = s)
                        (glob ''.md'' pd))" for s
  proof -
    from html have "filter (\<lambda>p. slug p = s \<and> source p = Markdown) hs = []"
      by (auto simp: filter_empty_conv list_all_iff)
    moreover have "length (filter (\<lambda>p. slug p = s \<and> source p = Markdown) ?ms)
                     = length (filter (\<lambda>(name, content). get_slug_from_filename name = s)
                                 (glob ''.md'' pd))"
      by (rule count_md_records)
    ultimately show ?thesis
      by (simp add: get_all_posts_def sort_reverse_filter scan)
  qed
  from one all count show ?thesis by blast
qed

theorem get_all_posts_slugs_witness:
  "map slug (get_all_posts (Some [(''2024-01-01-x.md'', ''A''), (''y.txt'', ''B'')])
                           (Some [(''x.html'', ''C''), (''z.html'', ''D'')])) = [''x'', ''z'']
   \<and> map source (get_all_posts (Some [(''2024-01-01-x.md'', ''A''), (''y.txt'', ''B'')])
                               (Some [(''x.html'', ''C''), (''z.html'', ''D'')])) = [Markdown, Html]
   \<and> distinct (map slug (get_all_posts (Some [(''2024-01-01-x.md'', ''A''), (''y.txt'', ''B'')])
                               (Some [(''x.html'', ''C''), (''z.html'', ''D'')])))"
proof -
  let ?pd = "Some [(''2024-01-01-x.md'', ''A''), (''y.txt'', ''B'')]"
  let ?td = "Some [(''x.html'', ''C''), (''z.html'', ''D'')]"
  have d: "distinct (map (\<lambda>(name, content). get_slug_from_filename name) (glob ''.md'' ?pd))"
    by code_simp
  have s: "map slug (get_all_posts ?pd ?td) = [''x'', ''z'']"
    by code_simp
  have t: "map source (get_all_posts ?pd ?td) = [Markdown, Html]"
    by code_simp
  from get_all_posts_slugs [of ?pd ?td] d have "distinct (map slug (get_all_posts ?pd ?td))"
    by blast
  with s t show ?thesis by blast
qed


text \<open>The date and the path of the record of a markdown file.\<close>

lemma md_record_date:
  "date (md_record name content) =
     (case fst (parse_frontmatter content) ''date'' of
        None \<Rightarrow> if date_prefix name then take 10 name else ''1970-01-01''
      | Some d \<Rightarrow> if d = [] then (if date_prefix name then take 10 name else ''1970-01-01'')
                  else d)"
  by (simp add: md_record_def get_or_def Let_def split: prod.split option.split)

lemma md_record_file [simp]: "file_path (md_record name content) = ''posts/'' @ name"
  by (simp add: md_record_def Let_def split: prod.split)

text \<open>
  Claim C7, as stated, fails for \<open>publish_post\<close>: for a file \<open>2024-01-01-x.md\<close> without a
  date in its front matter, published on 2026-11-04, the date of the record is the day of
  publishing; the scan gives the same file the date of its name.
\<close>

theorem publish_post_ignores_filename_date:
  "fst (parse_frontmatter ''hello'') ''date'' = None
   \<and> date_prefix ''2024-01-01-x.md''
   \<and> map_sum id info_date (publish_post ''2026-11-04'' True ''2024-01-01-x.md'' ''hello'' False)
       = Inr ''2026-11-04''
   \<and> map date (get_all_posts (Some [(''2024-01-01-x.md'', ''hello'')]) None) = [''2024-01-01'']"
  by code_simp

text \<open>
  Claim C7, amended. Every record from markdown in the list of \<open>get_all_posts\<close> is the
  record of a markdown file of the directory; when the front matter of the file has no
  \<open>date\<close>, or an empty one, the date of the record is the first ten characters of the file
  name if the name starts with four digits, two digits and two digits, each followed by a
  dash, and \<open>1970-01-01\<close> otherwise. \<open>publish_post\<close> does not read the file name for the
  date: without a \<open>date\<close> in the front matter the date of its record is the current day.
\<close>

theorem markdown_record_dates:
  "(\<forall>p \<in> set (get_all_posts pd td).
      source p = Markdown \<longrightarrow>
      (\<exists>(name, content) \<in> set (glob ''.md'' pd).
         file_path p = ''posts/'' @ name
         \<and> date p =
             (case fst (parse_frontmatter content) ''date'' of
                None \<Rightarrow> if date_prefix name then take 10 name else ''1970-01-01''
              | Some d \<Rightarrow>
                  if d = [] then (if date_prefix name then take 10 name else ''1970-01-01'')
                  else d)))
   \<and> (\<forall>info. publish_post today template_exists name content substack = Inr info \<longrightarrow>
        info_date info =
          (case fst (parse_frontmatter content) ''date'' of None \<Rightarrow> today | Some d \<Rightarrow> d))"
proof (intro conjI ballI impI allI)
  fix p
  assume p: "p \<in> set (get_all_posts pd td)" and m: "source p = Markdown"
  from scan_posts_shape [of pd td] obtain hs where
    scan: "scan_posts pd td = map (\<lambda>(name, content). md_record name content) (glob ''.md'' pd) @ hs"
    and html: "list_all (\<lambda>p. source p = Html) hs"
    by blast
  from p have "p \<in> set (map (\<lambda>(name, content). md_record name content) (glob ''.md'' pd)) \<union> set hs"
    by (simp add: get_all_posts_def sort_reverse_set scan)
  moreover from html m have "p \<notin> set hs"
    by (auto simp: list_all_iff)
  ultimately obtain name content where
    f: "(name, content) \<in> set (glob ''.md'' pd)" and r: "p = md_record name content"
    by auto
  from f show "\<exists>(name, content) \<in> set (glob ''.md'' pd).
         file_path p = ''posts/'' @ name
         \<and> date p =
             (case fst (parse_frontmatter content) ''date'' of
                None \<Rightarrow> if date_prefix name then take 10 name else ''1970-01-01''
              | Some d \<Rightarrow>
                  if d = [] then (if date_prefix name then take 10 name else ''1970-01-01'')
                  else d)"
    unfolding r by (intro bexI [of _ "(name, content)"]) (simp_all add: md_record_date)
next
  fix info
  assume "publish_post today template_exists name content substack = Inr info"
  then show "info_date info =
          (case fst (parse_frontmatter content) ''date'' of None \<Rightarrow> today | Some d \<Rightarrow> d)"
    by (auto simp: publish_post_def get_or_def Let_def split: prod.splits if_splits option.splits)
qed

theorem markdown_record_dates_witness:
  "map date (get_all_posts (Some [(''2024-03-01-a.md'', ''A'')]) None) = [''2024-03-01'']
   \<and> map date (get_all_posts (Some [(''b.md'', ''B'')]) None) = [''1970-01-01'']
   \<and> map_sum id info_date (publish_post ''2026-11-04'' True ''b.md'' ''B'' True)
       = Inr ''2026-11-04''"
proof -
  let ?a = "md_record ''2024-03-01-a.md'' ''A''" and ?b = "md_record ''b.md'' ''B''"
  have la: "get_all_posts (Some [(''2024-03-01-a.md'', ''A'')]) None = [?a]"
    and lb: "get_all_posts (Some [(''b.md'', ''B'')]) None = [?b]"
    by code_simp+
  have ga: "glob ''.md'' (Some [(''2024-03-01-a.md'', ''A'')]) = [(''2024-03-01-a.md'', ''A'')]"
    and gb: "glob ''.md'' (Some [(''b.md'', ''B'')]) = [(''b.md'', ''B'')]"
    by code_simp+
  have fa: "fst (parse_frontmatter ''A'') ''date'' = None"
    and fb: "fst (parse_frontmatter ''B'') ''date'' = None"
    by code_simp+
  have pa: "date_prefix ''2024-03-01-a.md''" and pb: "\<not> date_prefix ''b.md''"
    by code_simp+
  obtain info where i: "publish_post ''2026-11-04'' True ''b.md'' ''B'' True = Inr info"
    by (cases "parse_frontmatter ''B''") (simp add: publish_post_def Let_def)
  have "date ?a = ''2024-03-01''"
    using markdown_record_dates [of "Some [(''2024-03-01-a.md'', ''A'')]" None] pa
    by (simp add: la ga fa)
  moreover have "date ?b = ''1970-01-01''"
    using markdown_record_dates [of "Some [(''b.md'', ''B'')]" None] pb
    by (simp add: lb gb fb)
  moreover have "info_date info = ''2026-11-04''"
    using markdown_record_dates [of None None "''2026-11-04''" True "''b.md''" "''B''" True] i
    by (simp add: fb)
  ultimately show ?thesis
    by (simp add: la lb i)
qed

section \<open>Properties of the header lines\<close>

text \<open>A line that holds a colon splits in two at the first colon, so the loop over the
  header lines always unpacks a key and a value.\<close>

lemma find_sub_char:
  "c \<in> set s \<Longrightarrow> find_sub [c] s = Some (length (takeWhile (\<lambda>y. y \<noteq> c) s))"
  by (induction s) (auto simp: startswith_def)

lemma split_colon_two:
  assumes "c \<in> set line"
  shows "split_max [c] 1 line = [takeWhile (\<lambda>y. y \<noteq> c) line, tl (dropWhile (\<lambda>y. y \<noteq> c) line)]"
proof -
  let ?n = "length (takeWhile (\<lambda>y. y \<noteq> c) line)"
  have "take ?n line = takeWhile (\<lambda>y. y \<noteq> c) line"
    by (rule takeWhile_eq_take [symmetric])
  moreover have "drop (Suc ?n) line = tl (dropWhile (\<lambda>y. y \<noteq> c) line)"
    by (simp add: dropWhile_eq_drop drop_Suc tl_drop)
  ultimately show ?thesis
    using find_sub_char [OF assms] by simp
qed

lemma header_loop_step:
  "header_loop (line # rest) fm =
     (if CHR '':'' \<in> set line
      then header_loop rest
             (fm(strip (takeWhile (\<lambda>c. c \<noteq> CHR '':'') line) \<mapsto>
                   strip_chars [sq] (strip_chars [dq]
                     (strip (tl (dropWhile (\<lambda>c. c \<noteq> CHR '':'') line))))))
      else header_loop rest fm)"
  by (simp add: split_colon_two [unfolded One_nat_def] del: split_max.simps)

lemma find_append_case:
  "List.find P (xs @ ys) = (case List.find P xs of None \<Rightarrow> List.find P ys | Some x \<Rightarrow> Some x)"
  by (induction xs) simp_all

text \<open>The value that the loop leaves for a key is the value of the last line of that
  key.\<close>

lemma header_loop_lookup:
  "header_loop ls fm k =
     (case List.find (\<lambda>l. CHR '':'' \<in> set l \<and> strip (takeWhile (\<lambda>c. c \<noteq> CHR '':'') l) = k) (rev ls) of
        None \<Rightarrow> fm k
      | Some l \<Rightarrow>
          Some (strip_chars [sq] (strip_chars [dq]
                  (strip (tl (dropWhile (\<lambda>c. c \<noteq> CHR '':'') l))))))"
proof (induction ls arbitrary: fm)
  case Nil
  then show ?case by simp
next
  case (Cons line rest)
  show ?case
    unfolding header_loop_step
    by (simp add: Cons.IH find_append_case split: option.split)
qed

text \<open>\<open>strip(chars)\<close> removes a prefix and a suffix made of the characters, and what is
  left neither starts nor ends with one of them.\<close>

lemma strip_chars_shape:
  "\<exists>a b. s = a @ strip_chars cs s @ b \<and> set a \<subseteq> set cs \<and> set b \<subseteq> set cs
         \<and> (strip_chars cs s = []
              \<or> hd (strip_chars cs s) \<notin> set cs \<and> last (strip_chars cs s) \<notin> set cs)"
proof -
  let ?P = "\<lambda>c. c \<in> set cs"
  let ?m = "dropWhile ?P s"
  let ?a = "takeWhile ?P s"
  let ?b = "rev (takeWhile ?P (rev ?m))"
  have r: "strip_chars cs s = rev (dropWhile ?P (rev ?m))"
    by (simp add: strip_chars_def)
  have "rev ?m = takeWhile ?P (rev ?m) @ dropWhile ?P (rev ?m)"
    by simp
  then have "?m = rev (dropWhile ?P (rev ?m)) @ ?b"
    by (metis rev_append rev_rev_ident)
  then have m: "?m = strip_chars cs s @ ?b"
    by (simp only: r)
  have "s = ?a @ ?m" by simp
  with m have s: "s = ?a @ strip_chars cs s @ ?b" by simp
  have a: "set ?a \<subseteq> set cs"
    by (auto dest: set_takeWhileD)
  have b: "set ?b \<subseteq> set cs"
    by (auto dest: set_takeWhileD)
  have ends: "hd (strip_chars cs s) \<notin> set cs \<and> last (strip_chars cs s) \<notin> set cs"
    if ne: "strip_chars cs s \<noteq> []"
  proof
    from ne r have dne: "dropWhile ?P (rev ?m) \<noteq> []" by simp
    then have "\<not> ?P (hd (dropWhile ?P (rev ?m)))"
      by (rule hd_dropWhile)
    with dne show "last (strip_chars cs s) \<notin> set cs"
      by (simp add: r last_rev)
    from ne m have mne: "?m \<noteq> []" by (metis Nil_is_append_conv)
    then have "\<not> ?P (hd ?m)" by (rule hd_dropWhile)
    moreover from m ne have "hd ?m = hd (strip_chars cs s)"
      by (metis hd_append2)
    ultimately show "hd (strip_chars cs s) \<notin> set cs" by simp
  qed
  from s a b ends show ?thesis by blast
qed

text \<open>
  Claim C8, as stated, fails: \<open>strip('"')\<close> and \<open>strip("'")\<close> remove every leading and
  trailing quote, not one matching layer. A value written with two double quotes on each
  side of \<open>x\<close> is stored as \<open>x\<close>, without quotes, and a value with one single quote
  before \<open>y\<close> and none after it is stored as \<open>y\<close>.
\<close>

theorem header_quotes_all_stripped:
  "fst (parse_frontmatter
         (''---'' @ [nl] @ ''title: '' @ [dq, dq] @ ''x'' @ [dq, dq] @ [nl]
            @ ''tag: '' @ [sq] @ ''y'' @ [nl] @ ''---'' @ [nl] @ ''body'')) ''title''
     = Some ''x''
   \<and> fst (parse_frontmatter
         (''---'' @ [nl] @ ''title: '' @ [dq, dq] @ ''x'' @ [dq, dq] @ [nl]
            @ ''tag: '' @ [sq] @ ''y'' @ [nl] @ ''---'' @ [nl] @ ''body'')) ''tag''
     = Some ''y''"
  by code_simp

text \<open>
  Claim C8, amended. When the text starts with the marker and splits in three at its
  first two occurrences, the metadata of a key is taken from the last header line that
  holds a colon and whose text before the first colon, trimmed of whitespace, is the key;
  lines without a colon count for nothing. The value is the text after the first colon,
  trimmed of whitespace, then of all double quotes at its two ends, then of all single
  quotes at its two ends: each trimming removes a prefix and a suffix made of those
  characters only, and leaves a text that neither starts nor ends with one of them.
\<close>

theorem header_values:
  "(startswith content ''---'' \<and> split_max ''---'' 2 content = [a, header, rest] \<longrightarrow>
      parse_frontmatter content =
        (\<lambda>k. case List.find
                    (\<lambda>l. CHR '':'' \<in> set l \<and> strip (takeWhile (\<lambda>c. c \<noteq> CHR '':'') l) = k)
                    (rev (split_all [nl] (strip header))) of
                None \<Rightarrow> None
              | Some l \<Rightarrow>
                  Some (strip_chars [sq] (strip_chars [dq]
                          (strip (tl (dropWhile (\<lambda>c. c \<noteq> CHR '':'') l))))),
         strip rest))
   \<and> (\<exists>a b. s = a @ strip_chars cs s @ b \<and> set a \<subseteq> set cs \<and> set b \<subseteq> set cs
          \<and> (strip_chars cs s = []
               \<or> hd (strip_chars cs s) \<notin> set cs \<and> last (strip_chars cs s) \<notin> set cs))"
proof (intro conjI impI)
  assume h: "startswith content ''---'' \<and> split_max ''---'' 2 content = [a, header, rest]"
  then have "parse_frontmatter content
               = (header_loop (split_all [nl] (strip header)) Map.empty, strip rest)"
    by (simp add: parse_frontmatter_def)
  then show "parse_frontmatter content =
        (\<lambda>k. case List.find
                    (\<lambda>l. CHR '':'' \<in> set l \<and> strip (takeWhile (\<lambda>c. c \<noteq> CHR '':'') l) = k)
                    (rev (split_all [nl] (strip header))) of
                None \<Rightarrow> None
              | Some l \<Rightarrow>
                  Some (strip_chars [sq] (strip_chars [dq]
                          (strip (tl (dropWhile (\<lambda>c. c \<noteq> CHR '':'') l))))),
         strip rest)"
    by (simp add: header_loop_lookup [abs_def])
next
  show "\<exists>a b. s = a @ strip_chars cs s @ b \<and> set a \<subseteq> set cs \<and> set b \<subseteq> set cs
          \<and> (strip_chars cs s = []
               \<or> hd (strip_chars cs s) \<notin> set cs \<and> last (strip_chars cs s) \<notin> set cs)"
    by (rule strip_chars_shape)
qed


theorem header_values_witness:
  "fst (parse_frontmatter
         (''---'' @ [nl] @ ''title: '' @ [dq] @ ''Hi'' @ [dq] @ [nl] @ ''plain line'' @ [nl]
            @ ''title: '' @ [sq, dq] @ ''Ho'' @ [sq] @ [nl] @ ''---'' @ [nl] @ ''body'')) ''title''
     = Some ([dq] @ ''Ho'')
   \<and> fst (parse_frontmatter
         (''---'' @ [nl] @ ''title: '' @ [dq] @ ''Hi'' @ [dq] @ [nl] @ ''plain line'' @ [nl]
            @ ''title: '' @ [sq, dq] @ ''Ho'' @ [sq] @ [nl] @ ''---'' @ [nl] @ ''body''))
         ''plain line''
     = None
   \<and> snd (parse_frontmatter
         (''---'' @ [nl] @ ''title: '' @ [dq] @ ''Hi'' @ [dq] @ [nl] @ ''plain line'' @ [nl]
            @ ''title: '' @ [sq, dq] @ ''Ho'' @ [sq] @ [nl] @ ''---'' @ [nl] @ ''body''))
     = ''body''"
proof -
  let ?h = "[nl] @ ''title: '' @ [dq] @ ''Hi'' @ [dq] @ [nl] @ ''plain line'' @ [nl]
            @ ''title: '' @ [sq, dq] @ ''Ho'' @ [sq] @ [nl]"
  let ?c = "''---'' @ [nl] @ ''title: '' @ [dq] @ ''Hi'' @ [dq] @ [nl] @ ''plain line'' @ [nl]
            @ ''title: '' @ [sq, dq] @ ''Ho'' @ [sq] @ [nl] @ ''---'' @ [nl] @ ''body''"
  let ?f = "\<lambda>k. case List.find
                    (\<lambda>l. CHR '':'' \<in> set l \<and> strip (takeWhile (\<lambda>c. c \<noteq> CHR '':'') l) = k)
                    (rev (split_all [nl] (strip ?h))) of
                None \<Rightarrow> None
              | Some l \<Rightarrow>
                  Some (strip_chars [sq] (strip_chars [dq]
                          (strip (tl (dropWhile (\<lambda>c. c \<noteq> CHR '':'') l)))))"
  have st: "startswith ?c ''---''" by code_simp
  have sp: "split_max ''---'' 2 ?c = [[], ?h, [nl] @ ''body'']" by code_simp
  have t: "?f ''title'' = Some ([dq] @ ''Ho'')" by code_simp
  have p: "?f ''plain line'' = None" by code_simp
  have b: "strip ([nl] @ ''body'') = ''body''" by code_simp
  from header_values [of ?c "[]" ?h "[nl] @ ''body''"] st sp
  have pf: "parse_frontmatter ?c = (?f, strip ([nl] @ ''body''))"
    by blast
  show ?thesis
    by (simp only: pf fst_conv snd_conv t p b simp_thms)
qed

section \<open>Properties of the block converter\<close>

text \<open>A fence line ends every paragraph, so the loop over lines up to a fence line does
  not depend on the lines from the fence on.\<close>

lemma fence_not_para_cont: "startswith f fence \<Longrightarrow> \<not> para_cont f"
  by (simp add: para_cont_def)

lemma para_cont_not_fence: "para_cont l \<Longrightarrow> \<not> startswith l fence"
  by (auto simp: para_cont_def)

lemma md_step_append:
  assumes "startswith f fence"
  shows "md_step st line (rest @ f # ys)
           = (fst (md_step st line rest), snd (md_step st line rest) @ f # ys)"
proof -
  have t: "takeWhile para_cont (rest @ f # ys) = takeWhile para_cont rest"
    using assms by (simp add: takeWhile_tail fence_not_para_cont)
  have d: "dropWhile para_cont (rest @ f # ys) = dropWhile para_cont rest @ f # ys"
    using assms by (simp add: dropWhile_append3 fence_not_para_cont)
  show ?thesis
    by (simp add: md_step_def Let_def t d split: option.split)
qed

lemma md_loop_append:
  "startswith f fence \<Longrightarrow> md_loop st (xs @ f # ys) = md_loop (md_loop st xs) (f # ys)"
proof (induction st xs rule: md_loop.induct)
  case (1 st)
  then show ?case by simp
next
  case (2 st line rest)
  have "md_loop st ((line # rest) @ f # ys)
          = md_loop (fst (md_step st line rest)) (snd (md_step st line rest) @ f # ys)"
    by (simp add: md_step_append [OF "2.prems"] del: md_loop.simps(2))
       (simp add: md_step_append [OF "2.prems"])
  also have "\<dots> = md_loop (md_loop (fst (md_step st line rest)) (snd (md_step st line rest))) (f # ys)"
    by (rule "2.IH" [OF "2.prems"])
  finally show ?case by simp
qed

text \<open>Inside a code block, lines that are no fence are only appended to the buffer.\<close>

lemma md_loop_in_code:
  "in_code st \<Longrightarrow> list_all (\<lambda>l. \<not> startswith l fence) code
     \<Longrightarrow> md_loop st code = st\<lparr>code_block := code_block st @ code\<rparr>"
proof (induction code arbitrary: st)
  case Nil
  then show ?case by simp
next
  case (Cons l code)
  from Cons.prems have s: "md_step st l code = (st\<lparr>code_block := code_block st @ [l]\<rparr>, code)"
    by (simp add: md_step_def)
  have "md_loop st (l # code) = md_loop (st\<lparr>code_block := code_block st @ [l]\<rparr>) code"
    by (simp add: s)
  also have "\<dots> = (st\<lparr>code_block := code_block st @ [l]\<rparr>)
                      \<lparr>code_block := code_block (st\<lparr>code_block := code_block st @ [l]\<rparr>) @ code\<rparr>"
    using Cons.prems by (intro Cons.IH) simp_all
  finally show ?case by simp
qed


lemma filter_fence_dropWhile:
  "filter (\<lambda>l. startswith l fence) (dropWhile para_cont xs) = filter (\<lambda>l. startswith l fence) xs"
  by (induction xs) (auto dest: para_cont_not_fence)

lemma md_step_rest:
  "snd (md_step st line rest) = rest \<or> snd (md_step st line rest) = dropWhile para_cont rest"
  by (simp add: md_step_def Let_def split: option.split)

lemma md_step_fences:
  "filter (\<lambda>l. startswith l fence) (snd (md_step st line rest))
     = filter (\<lambda>l. startswith l fence) rest"
  using md_step_rest [of st line rest] by (auto simp: filter_fence_dropWhile)

text \<open>What one turn of the loop does to the fields of the state.\<close>

lemma emit_fields [simp]:
  "in_code (emit h st) = in_code st" "code_block (emit h st) = code_block st"
  "in_list (emit h st) = in_list st" "html_lines (emit h st) = html_lines st @ [h]"
  by (simp_all add: emit_def)

lemma close_list_fields [simp]:
  "in_code (close_list line st) = in_code st" "code_block (close_list line st) = code_block st"
  by (simp_all add: close_list_def)

lemma open_list_fields [simp]:
  "in_code (open_list st) = in_code st" "code_block (open_list st) = code_block st"
  by (simp_all add: open_list_def)

lemma close_list_html_lines:
  "\<exists>more. html_lines (close_list line st) = html_lines st @ more"
  by (simp add: close_list_def)

lemma open_list_html_lines:
  "\<exists>more. html_lines (open_list st) = html_lines st @ more"
  by (simp add: open_list_def)

lemma md_step_in_code:
  "in_code (fst (md_step st line rest))
     = (if startswith line fence then \<not> in_code st else in_code st)"
  by (simp add: md_step_def Let_def split: option.split)

lemma md_step_code_block:
  "in_code st \<or> code_block st = []
     \<Longrightarrow> in_code (fst (md_step st line rest)) \<or> code_block (fst (md_step st line rest)) = []"
  by (auto simp: md_step_def Let_def split: option.split)

lemma md_step_html_lines:
  "\<exists>more. html_lines (fst (md_step st line rest)) = html_lines st @ more"
proof -
  obtain m1 where m1: "html_lines (close_list line st) = html_lines st @ m1"
    using close_list_html_lines by blast
  obtain m2 where m2: "html_lines (open_list (close_list line st)) = html_lines st @ m2"
    using open_list_html_lines [of "close_list line st"] m1 by auto
  show ?thesis
    by (simp add: md_step_def Let_def m1 m2 split: option.split)
qed

text \<open>The loop is in a code block after the lines \<open>xs\<close> when the number of fence lines
  among them is odd, if it started outside one.\<close>

lemma md_loop_in_code_parity:
  "in_code (md_loop st xs)
     = (in_code st \<noteq> odd (length (filter (\<lambda>l. startswith l fence) xs)))"
proof (induction st xs rule: md_loop.induct)
  case (1 st)
  then show ?case by simp
next
  case (2 st line rest)
  show ?case
    by (auto simp: "2.IH" md_step_fences md_step_in_code)
qed

lemma md_loop_code_block:
  "in_code st \<or> code_block st = []
     \<Longrightarrow> in_code (md_loop st xs) \<or> code_block (md_loop st xs) = []"
proof (induction st xs rule: md_loop.induct)
  case (1 st)
  then show ?case by simp
next
  case (2 st line rest)
  from "2.prems" have "in_code (fst (md_step st line rest))
                         \<or> code_block (fst (md_step st line rest)) = []"
    by (rule md_step_code_block)
  then show ?case
    using "2.IH" by simp
qed

lemma md_loop_html_lines:
  "\<exists>more. html_lines (md_loop st xs) = html_lines st @ more"
proof (induction st xs rule: md_loop.induct)
  case (1 st)
  then show ?case by simp
next
  case (2 st line rest)
  from md_step_html_lines [of st line rest] obtain m1 where
    m1: "html_lines (fst (md_step st line rest)) = html_lines st @ m1" by blast
  from "2.IH" obtain m2 where
    "html_lines (md_loop (fst (md_step st line rest)) (snd (md_step st line rest)))
       = html_lines (fst (md_step st line rest)) @ m2" by blast
  with m1 show ?case by simp
qed


lemma finish_code_fields [simp]:
  "finish (st\<lparr>in_code := a\<rparr>) = finish st" "finish (st\<lparr>code_block := b\<rparr>) = finish st"
  by (simp_all add: finish_def emit_def)

text \<open>
  Claim C10. When the lines of the body are some lines \<open>pre\<close> with an even number of
  fence lines (every code block in them is closed), then a fence line, then lines none of
  which is a fence, the HTML is what the loop has emitted for \<open>pre\<close>, with the list closed
  if one is open: the lines after the opening fence add nothing to it, and no
  preformatted block is emitted for them.
\<close>

theorem unclosed_fence_discards:
  assumes "split_all [nl] md = pre @ f # code"
    and "startswith f fence"
    and "even (length (filter (\<lambda>l. startswith l fence) pre))"
    and "list_all (\<lambda>l. \<not> startswith l fence) code"
  shows "markdown_to_html md = finish (md_loop init_state pre)"
proof -
  let ?s = "md_loop init_state pre"
  have out: "\<not> in_code ?s"
    using assms(3) by (simp add: md_loop_in_code_parity init_state_def)
  have "md_loop init_state (pre @ f # code) = md_loop ?s (f # code)"
    using assms(2) by (rule md_loop_append)
  also have "\<dots> = md_loop (?s\<lparr>in_code := True\<rparr>) code"
    using assms(2) out by (simp add: md_step_def)
  also have "\<dots> = (?s\<lparr>in_code := True\<rparr>)\<lparr>code_block := code_block (?s\<lparr>in_code := True\<rparr>) @ code\<rparr>"
    using assms(4) by (intro md_loop_in_code) simp_all
  finally show ?thesis
    by (simp add: markdown_to_html_def assms(1))
qed

theorem unclosed_fence_discards_witness:
  "markdown_to_html (''a'' @ [nl] @ fence @ [nl] @ ''# x'' @ [nl] @ ''b'') = ''<p>a</p>''"
proof -
  have l: "split_all [nl] (''a'' @ [nl] @ fence @ [nl] @ ''# x'' @ [nl] @ ''b'')
             = [''a''] @ fence # [''# x'', ''b'']"
    by code_simp
  have f: "startswith fence fence" by code_simp
  have e: "even (length (filter (\<lambda>l. startswith l fence) [''a'']))" by code_simp
  have c: "list_all (\<lambda>l. \<not> startswith l fence) [''# x'', ''b'']" by code_simp
  have r: "finish (md_loop init_state [''a'']) = ''<p>a</p>''" by code_simp
  from unclosed_fence_discards [OF l f e c] r show ?thesis by simp
qed

lemma closed_block_state:
  "\<not> in_code st \<Longrightarrow> code_block st = []
     \<Longrightarrow> st\<lparr>html_lines := h, code_block := [], in_code := False\<rparr> = st\<lparr>html_lines := h\<rparr>"
  by (cases st) simp

text \<open>
  Claim C6. When the lines of the body are some lines \<open>pre\<close> with an even number of fence
  lines, a fence line, lines \<open>code\<close> none of which is a fence, a fence line and lines
  \<open>post\<close>, then the loop emits for the two fences and the lines between them one block, the
  preformatted block of the escaped lines joined by line feeds, right after what it has
  emitted for \<open>pre\<close>, and goes on with \<open>post\<close> in the state it had after \<open>pre\<close>: the lines of
  \<open>code\<close> are not looked at for headers, lists, rules, quotes or images, and the inline
  formatter is not applied to them.
\<close>

theorem fenced_code_verbatim:
  assumes "split_all [nl] md = pre @ f1 # code @ f2 # post"
    and "startswith f1 fence" and "startswith f2 fence"
    and "even (length (filter (\<lambda>l. startswith l fence) pre))"
    and "list_all (\<lambda>l. \<not> startswith l fence) code"
  shows "markdown_to_html md =
           finish (md_loop
             ((md_loop init_state pre)
                \<lparr>html_lines := html_lines (md_loop init_state pre)
                   @ [''<pre><code>'' @ html_escape (join [nl] code) @ ''</code></pre>'']\<rparr>)
             post)
         \<and> (\<exists>more. html_lines (md_loop init_state (split_all [nl] md)) =
               html_lines (md_loop init_state pre)
                 @ [''<pre><code>'' @ html_escape (join [nl] code) @ ''</code></pre>''] @ more)"
proof -
  let ?s = "md_loop init_state pre"
  let ?b = "''<pre><code>'' @ html_escape (join [nl] code) @ ''</code></pre>''"
  let ?t = "?s\<lparr>html_lines := html_lines ?s @ [?b]\<rparr>"
  have out: "\<not> in_code ?s"
    using assms(4) by (simp add: md_loop_in_code_parity init_state_def)
  have "in_code ?s \<or> code_block ?s = []"
    by (rule md_loop_code_block) (simp add: init_state_def)
  with out have empty: "code_block ?s = []" by simp
  have "md_loop init_state (pre @ f1 # code @ f2 # post) = md_loop ?s (f1 # code @ f2 # post)"
    using assms(2) by (rule md_loop_append)
  also have "\<dots> = md_loop (?s\<lparr>in_code := True\<rparr>) (code @ f2 # post)"
    using assms(2) out by (simp add: md_step_def)
  also have "\<dots> = md_loop (md_loop (?s\<lparr>in_code := True\<rparr>) code) (f2 # post)"
    using assms(3) by (rule md_loop_append)
  also have "md_loop (?s\<lparr>in_code := True\<rparr>) code
               = (?s\<lparr>in_code := True\<rparr>)\<lparr>code_block := code_block (?s\<lparr>in_code := True\<rparr>) @ code\<rparr>"
    using assms(5) by (intro md_loop_in_code) simp_all
  also have "md_loop \<dots> (f2 # post) = md_loop ?t post"
    using assms(3) by (simp add: md_step_def pre_block_def empty closed_block_state [OF out empty])
  finally have loop: "md_loop init_state (pre @ f1 # code @ f2 # post) = md_loop ?t post" .
  from md_loop_html_lines [of ?t post] obtain more where
    "html_lines (md_loop ?t post) = html_lines ?t @ more" by blast
  then have "html_lines (md_loop init_state (split_all [nl] md)) = html_lines ?s @ [?b] @ more"
    by (simp add: assms(1) loop)
  then show ?thesis
    by (auto simp: markdown_to_html_def assms(1) loop)
qed


theorem fenced_code_verbatim_witness:
  "markdown_to_html
     (''a'' @ [nl] @ fence @ [nl] @ ''# x *y* <b>'' @ [nl] @ ''- z'' @ [nl] @ fence @ [nl] @ ''b'')
   = ''<p>a</p>'' @ [nl] @ ''                '' @ ''<pre><code># x *y* &lt;b&gt;'' @ [nl]
       @ ''- z</code></pre>'' @ [nl] @ ''                '' @ ''<p>b</p>''"
proof -
  let ?md = "''a'' @ [nl] @ fence @ [nl] @ ''# x *y* <b>'' @ [nl] @ ''- z'' @ [nl] @ fence
               @ [nl] @ ''b''"
  have l: "split_all [nl] ?md = [''a''] @ fence # [''# x *y* <b>'', ''- z''] @ fence # [''b'']"
    by code_simp
  have f: "startswith fence fence" by code_simp
  have e: "even (length (filter (\<lambda>l. startswith l fence) [''a'']))" by code_simp
  have c: "list_all (\<lambda>l. \<not> startswith l fence) [''# x *y* <b>'', ''- z'']" by code_simp
  have r: "finish (md_loop
             ((md_loop init_state [''a''])
                \<lparr>html_lines := html_lines (md_loop init_state [''a''])
                   @ [''<pre><code>'' @ html_escape (join [nl] [''# x *y* <b>'', ''- z''])
                        @ ''</code></pre>'']\<rparr>)
             [''b''])
           = ''<p>a</p>'' @ [nl] @ ''                '' @ ''<pre><code># x *y* &lt;b&gt;'' @ [nl]
               @ ''- z</code></pre>'' @ [nl] @ ''                '' @ ''<p>b</p>''"
    by code_simp
  from fenced_code_verbatim [OF l f f e c] have
    "markdown_to_html ?md = finish (md_loop
             ((md_loop init_state [''a''])
                \<lparr>html_lines := html_lines (md_loop init_state [''a''])
                   @ [''<pre><code>'' @ html_escape (join [nl] [''# x *y* <b>'', ''- z''])
                        @ ''</code></pre>'']\<rparr>)
             [''b''])"
    by (rule conjunct1)
  with r show ?thesis by (simp only:)
qed

section \<open>Properties of the inline formatter\<close>

text \<open>A substitution leaves a text alone that holds none of its marker characters.\<close>

lemma replace_char_absent: "c \<notin> set s \<Longrightarrow> replace [c] new s = s"
  by (induction s) (auto simp: startswith_def)

lemma replace_absent:
  "old \<noteq> [] \<Longrightarrow> occurrences old s = 0 \<Longrightarrow> replace old new s = s"
  by (induction s) (simp_all split: if_splits)

lemma html_escape_plain:
  assumes "CHR ''&'' \<notin> set s" "CHR ''<'' \<notin> set s" "CHR ''>'' \<notin> set s"
    "dq \<notin> set s" "sq \<notin> set s"
  shows "html_escape s = s"
  using assms by (simp add: html_escape_def replace_char_absent)

lemma sub_span_absent:
  "d \<noteq> [] \<Longrightarrow> hd d = x \<Longrightarrow> x \<notin> set s \<Longrightarrow> sub_span d x opn cls s = s"
proof (induction s)
  case Nil
  then show ?case by simp
next
  case (Cons c cs)
  from Cons.prems have "\<not> startswith (c # cs) d"
    by (cases d) (auto simp: startswith_def)
  with Cons show ?case by simp
qed

lemma sub_link_absent: "CHR ''['' \<notin> set s \<Longrightarrow> sub_link s = s"
  by (induction s) auto

lemma sub_link_prefix: "CHR ''['' \<notin> set pre \<Longrightarrow> sub_link (pre @ s) = pre @ sub_link s"
  by (induction pre) auto

lemma takeWhile_until:
  "c \<notin> set xs \<Longrightarrow> takeWhile (\<lambda>y. y \<noteq> c) (xs @ c # ys) = xs"
  by (induction xs) auto

lemma dropWhile_until:
  "c \<notin> set xs \<Longrightarrow> dropWhile (\<lambda>y. y \<noteq> c) (xs @ c # ys) = c # ys"
  by (induction xs) auto

text \<open>The link substitution at a link whose text holds no closing bracket and whose url
  holds no closing parenthesis.\<close>

lemma sub_link_one:
  assumes "t \<noteq> []" "u \<noteq> []" "CHR '']'' \<notin> set t" "CHR '')'' \<notin> set u"
  shows "sub_link (''['' @ t @ '']('' @ u @ '')'' @ post)
           = ''<a href='' @ [dq] @ u @ [dq] @ ''>'' @ t @ ''</a>'' @ sub_link post"
proof -
  let ?cs = "t @ CHR '']'' # (CHR ''('' # u @ CHR '')'' # post)"
  have t1: "takeWhile (\<lambda>y. y \<noteq> CHR '']'') ?cs = t"
    using assms(3) by (rule takeWhile_until)
  have d1: "dropWhile (\<lambda>y. y \<noteq> CHR '']'') ?cs = CHR '']'' # (CHR ''('' # u @ CHR '')'' # post)"
    using assms(3) by (rule dropWhile_until)
  have t2: "takeWhile (\<lambda>y. y \<noteq> CHR '')'') (u @ CHR '')'' # post) = u"
    using assms(4) by (rule takeWhile_until)
  have d2: "dropWhile (\<lambda>y. y \<noteq> CHR '')'') (u @ CHR '')'' # post) = CHR '')'' # post"
    using assms(4) by (rule dropWhile_until)
  have "sub_link (CHR ''['' # ?cs)
          = ''<a href='' @ [dq] @ u @ [dq] @ ''>'' @ t @ ''</a>'' @ sub_link post"
    using assms(1,2) by (simp add: t1 d1 t2 d2 startswith_def)
  then show ?thesis by simp
qed


text \<open>Two texts without \<open>--\<close> give a text without \<open>--\<close>, unless a dash ends the first and a
  dash starts the second.\<close>

lemma occurrences_dashes_append:
  "occurrences ''--'' a = 0 \<Longrightarrow> occurrences ''--'' b = 0
     \<Longrightarrow> a = [] \<or> last a \<noteq> CHR ''-'' \<or> b = [] \<or> hd b \<noteq> CHR ''-''
     \<Longrightarrow> occurrences ''--'' (a @ b) = 0"
proof (induction a)
  case Nil
  then show ?case by simp
next
  case (Cons c cs)
  show ?case
  proof (cases cs)
    case Nil
    with Cons.prems show ?thesis
      by (cases b) (auto simp: startswith_def split: if_splits)
  next
    case (Cons d ds)
    with Cons.prems Cons.IH show ?thesis
      by (auto simp: startswith_def split: if_splits)
  qed
qed

lemma plain_notin: "plain s \<Longrightarrow> c \<in> set specials \<Longrightarrow> c \<notin> set s"
  by (auto simp: plain_def list_all_iff)

text \<open>
  Claim C4, amended. For a link \<open>[text](url)\<close> between plain texts, where the text and the
  url are not empty and all four hold none of the characters that the escape or a
  substitution looks for (ampersand, angle brackets, quotes, backtick, asterisk,
  underscore, brackets, parentheses), the formatter gives the hyperlink with the url in
  its \<open>href\<close>, and then replaces every \<open>--\<close>, also inside the url. When none of the four
  texts holds \<open>--\<close>, the url stands in the \<open>href\<close> unchanged.
\<close>

theorem link_url_kept:
  assumes "plain pre" "plain t" "plain u" "plain post" "t \<noteq> []" "u \<noteq> []"
  shows "process_inline (pre @ ''['' @ t @ '']('' @ u @ '')'' @ post)
           = replace ''--'' ''&mdash;''
               (pre @ ''<a href='' @ [dq] @ u @ [dq] @ ''>'' @ t @ ''</a>'' @ post)
         \<and> (occurrences ''--'' pre = 0 \<and> occurrences ''--'' t = 0
              \<and> occurrences ''--'' u = 0 \<and> occurrences ''--'' post = 0 \<longrightarrow>
            process_inline (pre @ ''['' @ t @ '']('' @ u @ '')'' @ post)
              = pre @ ''<a href='' @ [dq] @ u @ [dq] @ ''>'' @ t @ ''</a>'' @ post)"
proof -
  let ?text = "pre @ ''['' @ t @ '']('' @ u @ '')'' @ post"
  let ?out = "pre @ ''<a href='' @ [dq] @ u @ [dq] @ ''>'' @ t @ ''</a>'' @ post"
  have notin: "c \<notin> set ?text"
    if "c \<in> set specials" "c \<notin> set ''[]()''" for c
    using that assms(1-4) by (auto dest: plain_notin)
  have esc: "html_escape ?text = ?text"
    by (intro html_escape_plain notin) (simp_all add: specials_def dq_def sq_def)
  have code: "sub_span [bt] bt ''<code>'' ''</code>'' ?text = ?text"
    by (intro sub_span_absent notin) (simp_all add: specials_def bt_def)
  have bold1: "sub_span ''**'' (CHR ''*'') ''<strong>'' ''</strong>'' ?text = ?text"
    by (intro sub_span_absent notin) (simp_all add: specials_def)
  have bold2: "sub_span ''__'' (CHR ''_'') ''<strong>'' ''</strong>'' ?text = ?text"
    by (intro sub_span_absent notin) (simp_all add: specials_def)
  have it1: "sub_span ''*'' (CHR ''*'') ''<em>'' ''</em>'' ?text = ?text"
    by (intro sub_span_absent notin) (simp_all add: specials_def)
  have it2: "sub_span ''_'' (CHR ''_'') ''<em>'' ''</em>'' ?text = ?text"
    by (intro sub_span_absent notin) (simp_all add: specials_def)
  have br: "CHR ''['' \<notin> set pre" "CHR ''['' \<notin> set post" "CHR '']'' \<notin> set t" "CHR '')'' \<notin> set u"
    using assms(1-4) by (auto dest: plain_notin simp: specials_def)
  have "sub_link ?text = pre @ sub_link (''['' @ t @ '']('' @ u @ '')'' @ post)"
    using br(1) by (rule sub_link_prefix)
  also have "\<dots> = pre @ ''<a href='' @ [dq] @ u @ [dq] @ ''>'' @ t @ ''</a>'' @ sub_link post"
    using sub_link_one [OF assms(5,6) br(3,4)] by simp
  also have "\<dots> = ?out"
    using br(2) by (simp add: sub_link_absent)
  finally have link: "sub_link ?text = ?out" .
  have first: "process_inline ?text = replace ''--'' ''&mdash;'' ?out"
    unfolding process_inline_def Let_def esc code bold1 bold2 it1 it2 link ..
  have second: "process_inline ?text = ?out"
    if "occurrences ''--'' pre = 0 \<and> occurrences ''--'' t = 0
          \<and> occurrences ''--'' u = 0 \<and> occurrences ''--'' post = 0"
  proof -
    have 1: "occurrences ''--'' (''</a>'' @ post) = 0"
      by (rule occurrences_dashes_append) (use that in \<open>simp_all add: startswith_def\<close>)
    have 2: "occurrences ''--'' (t @ ''</a>'' @ post) = 0"
      by (rule occurrences_dashes_append [OF _ 1]) (use that in simp_all)
    have 3: "occurrences ''--'' (([dq] @ ''>'') @ t @ ''</a>'' @ post) = 0"
      by (rule occurrences_dashes_append [OF _ 2]) (simp_all add: startswith_def dq_def)
    have 4: "occurrences ''--'' (u @ ([dq] @ ''>'') @ t @ ''</a>'' @ post) = 0"
      by (rule occurrences_dashes_append [OF _ 3]) (use that in \<open>simp_all add: dq_def\<close>)
    have 5: "occurrences ''--''
               ((''<a href='' @ [dq]) @ u @ ([dq] @ ''>'') @ t @ ''</a>'' @ post) = 0"
      by (rule occurrences_dashes_append [OF _ 4]) (simp_all add: startswith_def dq_def)
    have "occurrences ''--''
            (pre @ (''<a href='' @ [dq]) @ u @ ([dq] @ ''>'') @ t @ ''</a>'' @ post) = 0"
      by (rule occurrences_dashes_append [OF _ 5]) (use that in simp_all)
    then have "occurrences ''--'' ?out = 0" by simp
    then have "replace ''--'' ''&mdash;'' ?out = ?out"
      by (intro replace_absent) simp_all
    with first show ?thesis by simp
  qed
  from first second show ?thesis by blast
qed


text \<open>
  Claim C4, as stated, fails: the em-dash replacement runs after the link substitution,
  over the whole text, and the italic substitution runs before it. A url \<open>x--y\<close> becomes
  \<open>x&mdash;y\<close> in the \<open>href\<close>, and a url \<open>b_c_d\<close> becomes \<open>b<em>c</em>d\<close>.
\<close>

theorem link_url_altered:
  "process_inline ''[a](x--y)'' = ''<a href='' @ [dq] @ ''x&mdash;y'' @ [dq] @ ''>a</a>''
   \<and> process_inline ''[a](b_c_d)'' = ''<a href='' @ [dq] @ ''b<em>c</em>d'' @ [dq] @ ''>a</a>''"
  by code_simp

theorem link_url_kept_witness:
  "process_inline ''see [docs](https://example.com/a-b?q=1).''
     = ''see <a href='' @ [dq] @ ''https://example.com/a-b?q=1'' @ [dq] @ ''>docs</a>.''"
proof -
  have p: "plain ''see ''" "plain ''docs''" "plain ''https://example.com/a-b?q=1''" "plain ''.''"
    by code_simp+
  have n: "''docs'' \<noteq> []" "''https://example.com/a-b?q=1'' \<noteq> []"
    by simp_all
  have o: "occurrences ''--'' ''see '' = 0 \<and> occurrences ''--'' ''docs'' = 0
             \<and> occurrences ''--'' ''https://example.com/a-b?q=1'' = 0
             \<and> occurrences ''--'' ''.'' = 0"
    by code_simp
  have "process_inline (''see '' @ ''['' @ ''docs'' @ '']('' @ ''https://example.com/a-b?q=1''
                          @ '')'' @ ''.'')
          = ''see '' @ ''<a href='' @ [dq] @ ''https://example.com/a-b?q=1'' @ [dq] @ ''>''
              @ ''docs'' @ ''</a>'' @ ''.''"
    using link_url_kept [OF p n] o by blast
  then show ?thesis
    by simp
qed

text \<open>
  Claim C1 fails on the code in the image branch, the only branch that writes the text of
  a line without \<open>html.escape\<close>: an alt text \<open><script>alert(1)</script>\<close> stands as it is
  in the \<open>alt\<close> attribute and in the caption, while the paragraph branch escapes the same
  text.
\<close>

theorem image_branch_unescaped:
  "markdown_to_html ''![<script>alert(1)</script>](x.png)''
     = ''<figure><img src='' @ [dq] @ ''x.png'' @ [dq] @ '' alt='' @ [dq]
         @ ''<script>alert(1)</script>'' @ [dq]
         @ ''><figcaption><script>alert(1)</script></figcaption></figure>''
   \<and> markdown_to_html ''<script>alert(1)</script>''
     = ''<p>&lt;script&gt;alert(1)&lt;/script&gt;</p>''"
  by code_simp

end
